theory Spec2Isabelle
  imports Main
begin

section \<open>Logging (log/log.go)\<close>

datatype Level = LevelDebug | LevelInfo | LevelWarn | LevelError | LevelFatal

text \<open>The numeric value the \<open>iota\<close> block gives each level.\<close>

fun level_int :: "Level \<Rightarrow> int" where
  "level_int LevelDebug = 0"
| "level_int LevelInfo = 1"
| "level_int LevelWarn = 2"
| "level_int LevelError = 3"
| "level_int LevelFatal = 4"

record Logger =
  minLevel :: Level
  tag :: string

text \<open>
  What the process can do instead of returning: \<open>os.Exit(code)\<close>, a nil pointer
  dereference, or an explicit \<open>panic(msg)\<close>.
\<close>

datatype abort = Exit int | PanicNilDeref | PanicMsg string

text \<open>
  \<open>Logger.log\<close> and \<open>Logger.logf\<close>: the line is written when the level is at least
  the logger's minimum, and a fatal level exits with status 1 whether or not the line
  was written. The result is (line written, abort if any).
\<close>

definition logf :: "Logger \<Rightarrow> Level \<Rightarrow> bool \<times> abort option" where
  "logf l level =
     (level_int level \<ge> level_int (minLevel l),
      if level = LevelFatal then Some (Exit 1) else None)"

definition Fatal :: "Logger \<Rightarrow> abort option" where
  "Fatal l = snd (logf l LevelFatal)"

section \<open>The download task (package download)\<close>

datatype QueueMode = QueueAuto | QueueSequential | QueueOutOfOrder

definition FailThreshold :: nat where
  "FailThreshold = 20"

definition RetryThreshold :: nat where
  "RetryThreshold = 3"

subsection \<open>HTTP requests and responses\<close>

record request =
  req_method :: string
  req_url :: string
  req_header :: "(string \<times> string) list"

text \<open>
  A response carries its status code and its body. Reading the body yields
  \<open>Body\<close> and then, when \<open>BodyErr\<close> is set, a read error instead of end of file.
\<close>

record response =
  StatusCode :: int
  Body :: string
  BodyErr :: bool

datatype do_result = DoErr | DoResp response

text \<open>
  An \<open>http.Client\<close> is the transport collaborator: the outcome of its \<open>n\<close>-th
  \<open>Do\<close> call on a request. A nil \<open>*http.Client\<close> is \<open>None\<close>.
\<close>

type_synonym http_client = "nat \<Rightarrow> request \<Rightarrow> do_result"

record DownloadResult =
  Error :: "string option"
  LostSegments :: "int list"
  TotalSegments :: int

text \<open>\<open>wg\<close> is the counter of the \<open>sync.WaitGroup\<close>; \<open>Threads\<close> is a \<open>uint\<close>.\<close>

record DownloadTask =
  Client :: "http_client option"
  DeleteSegments :: bool
  Logger :: "Logger option"
  MergeFile :: string
  QueueMode :: QueueMode
  SegmentDir :: string
  Threads :: nat
  Url :: string
  wg :: int
  result :: DownloadResult
  started :: bool

text \<open>The zero value of \<open>DownloadResult\<close>: nil error, nil slice, zero total.\<close>

definition zero_result :: DownloadResult where
  "zero_result = \<lparr>Error = None, LostSegments = [], TotalSegments = 0\<rparr>"

text \<open>
  A task as a caller outside the package can build it: the exported fields are free,
  the unexported ones (\<open>wg\<close>, \<open>result\<close>, \<open>started\<close>) have their zero values.
\<close>

definition new_task ::
  "http_client option \<Rightarrow> bool \<Rightarrow> Logger option \<Rightarrow> string \<Rightarrow> QueueMode \<Rightarrow> string \<Rightarrow> nat
     \<Rightarrow> string \<Rightarrow> DownloadTask" where
  "new_task c del lg mf qm sd th u =
     \<lparr>Client = c, DeleteSegments = del, Logger = lg, MergeFile = mf, QueueMode = qm,
      SegmentDir = sd, Threads = th, Url = u, wg = 0, result = zero_result,
      started = False\<rparr>"

text \<open>
  \<open>Start\<close>. The package-level \<open>log.Fatal\<close> goes through the default logger, so it
  takes that logger. The result is the abort, or the updated task together with the
  flag that the goroutine \<open>d.run()\<close> was launched.
\<close>

definition Start :: "Logger \<Rightarrow> DownloadTask \<Rightarrow> abort + (DownloadTask \<times> bool)" where
  "Start dl d =
     (if started d then Inr (d, False)
      else
        let d1 = (if Threads d < 1 then d\<lparr>Threads := 1\<rparr> else d) in
        case (if length (Url d1) = 0 then Fatal dl else None) of
          Some a \<Rightarrow> Inl a
        | None \<Rightarrow>
        (case (if length (MergeFile d1) = 0 then Fatal dl else None) of
          Some a \<Rightarrow> Inl a
        | None \<Rightarrow>
        (case (if length (SegmentDir d1) = 0 then Fatal dl else None) of
          Some a \<Rightarrow> Inl a
        | None \<Rightarrow> Inr (d1\<lparr>wg := wg d1 + 1, started := True\<rparr>, True))))"

text \<open>
  \<open>Wait\<close> blocks while the wait group's counter is not zero (\<open>None\<close>: no return in
  this state) and returns the task's result otherwise.
\<close>

definition Wait :: "DownloadTask \<Rightarrow> DownloadResult option" where
  "Wait d = (if wg d = 0 then Some (result d) else None)"

text \<open>The accessor \<open>client()\<close>, with the package's \<open>defaultClient\<close> as a parameter.\<close>

definition client :: "http_client \<Rightarrow> DownloadTask \<Rightarrow> http_client" where
  "client defaultClient d = (case Client d of Some c \<Rightarrow> c | None \<Rightarrow> defaultClient)"

definition logger :: "Logger \<Rightarrow> DownloadTask \<Rightarrow> Logger" where
  "logger DefaultLogger d = (case Logger d of Some l \<Rightarrow> l | None \<Rightarrow> DefaultLogger)"

subsection \<open>The environment of a worker\<close>

text \<open>
  \<open>segmentResult\<close>, the argument of \<open>status.downloaded\<close>.
\<close>

record segmentResult =
  ok :: bool
  filename :: string

text \<open>
  Everything a worker does that can be observed from outside, in the order it happens.
\<close>

datatype event =
    EvNextSegment int
  | EvThreadDone
  | EvGiveUp int
  | EvStatusDownloaded int segmentResult
  | EvDone int
  | EvCurrent int
  | EvDownloadedLog int
  | EvFailed int nat
  | EvSleep
  | EvDo request
  | EvTempFile string
  | EvRemove string

text \<open>
  The collaborators that are not part of this package, as parameters:
  \<open>getSegUrl\<close> (the segment URL function), whether \<open>http.NewRequest\<close> accepts a
  URL, the name \<open>ioutil.TempFile\<close> gives its \<open>n\<close>-th call (\<open>None\<close>: it fails), and
  for the \<open>n\<close>-th scratch file the number of bytes after which writing fails
  (\<open>None\<close>: it does not).
\<close>

record env =
  getSegUrl :: "string \<Rightarrow> int \<Rightarrow> string"
  url_ok :: "string \<Rightarrow> bool"
  tmp_name :: "nat \<Rightarrow> string option"
  write_fail :: "nat \<Rightarrow> nat option"

text \<open>
  The mutable state: the number of \<open>Client.Do\<close> calls and of \<open>TempFile\<close> calls made
  so far, the files of the scratch directory, and the trace of events.
\<close>

record world =
  ndo :: nat
  ntmp :: nat
  files :: "string \<rightharpoonup> string"
  trace :: "event list"

definition emit :: "event list \<Rightarrow> world \<Rightarrow> world" where
  "emit evs w = w\<lparr>trace := trace w @ evs\<rparr>"

definition NewRequest :: "env \<Rightarrow> string \<Rightarrow> string \<Rightarrow> request option" where
  "NewRequest e m u =
     (if url_ok e u then Some \<lparr>req_method = m, req_url = u, req_header = []\<rparr> else None)"

definition Header_Set :: "string \<Rightarrow> string \<Rightarrow> request \<Rightarrow> request" where
  "Header_Set k v r = r\<lparr>req_header := (k, v) # filter (\<lambda>kv. fst kv \<noteq> k) (req_header r)\<rparr>"

definition UserAgent :: string where
  "UserAgent = ''Mozilla/5.0 (Windows NT 10.0; Win64; x64) AppleWebKit/537.36 (KHTML, like Gecko) Chrome/89.0.4389.90 Safari/537.36''"

subsection \<open>doRequest\<close>

text \<open>
  The loop \<open>for i := 0; i < RetryThreshold; i++\<close>. \<open>task.Client.Do\<close> on a nil
  client dereferences it and panics. After the loop the error
  \<open>All requests failed\<close> is returned, here \<open>None\<close> for the response.
\<close>

function doRequest_loop ::
  "DownloadTask \<Rightarrow> request \<Rightarrow> nat \<Rightarrow> world \<Rightarrow> abort + (response option \<times> world)" where
  "doRequest_loop task req i w =
     (if i < RetryThreshold then
        (case Client task of
           None \<Rightarrow> Inl PanicNilDeref
         | Some c \<Rightarrow>
             let w' = emit [EvDo req] (w\<lparr>ndo := ndo w + 1\<rparr>) in
             (case c (ndo w) req of
                DoResp resp \<Rightarrow> Inr (Some resp, w')
              | DoErr \<Rightarrow> doRequest_loop task req (i + 1) w'))
      else Inr (None, w))"
  by pat_completeness auto
termination
  by (relation "measure (\<lambda>(task, req, i, w). RetryThreshold - i)") auto

definition doRequest ::
  "DownloadTask \<Rightarrow> request \<Rightarrow> world \<Rightarrow> abort + (response option \<times> world)" where
  "doRequest task req w = doRequest_loop task req 0 w"

subsection \<open>downloadSegment\<close>

text \<open>
  \<open>ioutil.TempFile\<close>: the next name, and a new empty file under it.
\<close>

definition TempFile :: "env \<Rightarrow> world \<Rightarrow> string option \<times> world" where
  "TempFile e w =
     (case tmp_name e (ntmp w) of
        None \<Rightarrow> (None, w\<lparr>ntmp := ntmp w + 1\<rparr>)
      | Some name \<Rightarrow>
          (Some name,
           emit [EvTempFile name] (w\<lparr>ntmp := ntmp w + 1, files := (files w)(name \<mapsto> [])\<rparr>)))"

text \<open>
  \<open>io.Copy(file, resp.Body)\<close> into the scratch file that the \<open>k\<close>-th \<open>TempFile\<close>
  call made: the bytes written before the first write or read error, and whether the
  copy ended without error.
\<close>

definition io_Copy :: "env \<Rightarrow> nat \<Rightarrow> string \<Rightarrow> response \<Rightarrow> world \<Rightarrow> bool \<times> world" where
  "io_Copy e k name resp w =
     (case write_fail e k of
        Some n \<Rightarrow>
          if n < length (Body resp)
          then (False, w\<lparr>files := (files w)(name \<mapsto> take n (Body resp))\<rparr>)
          else (\<not> BodyErr resp, w\<lparr>files := (files w)(name \<mapsto> Body resp)\<rparr>)
      | None \<Rightarrow> (\<not> BodyErr resp, w\<lparr>files := (files w)(name \<mapsto> Body resp)\<rparr>))"

definition os_Remove :: "string \<Rightarrow> world \<Rightarrow> world" where
  "os_Remove name w = emit [EvRemove name] (w\<lparr>files := (files w)(name := None)\<rparr>)"

text \<open>
  \<open>status.downloaded\<close> belongs to the segment status, which is not among the
  sources read here; the call is recorded in the trace.
\<close>

definition status_downloaded :: "int \<Rightarrow> segmentResult \<Rightarrow> world \<Rightarrow> world" where
  "status_downloaded seg r w = emit [EvStatusDownloaded seg r] w"

text \<open>
  \<open>downloadSegment\<close>. \<open>Fatalf\<close> exits with status 1. The debug, warning and error
  lines it logs and the deferred \<open>Close\<close> calls change nothing that is observed here.
\<close>

definition downloadSegment ::
  "env \<Rightarrow> DownloadTask \<Rightarrow> int \<Rightarrow> world \<Rightarrow> abort + (bool \<times> world)" where
  "downloadSegment e task segment w =
     (case NewRequest e ''GET'' (getSegUrl e (Url task) segment) of
        None \<Rightarrow> Inl (Exit 1)
      | Some req0 \<Rightarrow>
          let req = Header_Set ''User-Agent'' UserAgent req0 in
          (case doRequest task req w of
             Inl a \<Rightarrow> Inl a
           | Inr (None, w1) \<Rightarrow> Inr (False, w1)
           | Inr (Some resp, w1) \<Rightarrow>
               if StatusCode resp \<noteq> 200 then
                 (case NewRequest e ''GET'' (Url task) of
                    None \<Rightarrow> Inr (False, w1)
                  | Some preq \<Rightarrow>
                      (case doRequest task preq w1 of
                         Inl a \<Rightarrow> Inl a
                       | Inr (presp, w2) \<Rightarrow> Inr (False, w2)))
               else
                 (case TempFile e w1 of
                    (None, w2) \<Rightarrow> Inr (False, w2)
                  | (Some name, w2) \<Rightarrow>
                      (case io_Copy e (ntmp w1) name resp w2 of
                         (False, w3) \<Rightarrow> Inr (False, os_Remove name w3)
                       | (True, w3) \<Rightarrow>
                           Inr (True,
                                status_downloaded segment
                                  \<lparr>ok = True, filename = name\<rparr> w3)))))"

subsection \<open>downloadTask: the loop of one worker\<close>

text \<open>
  The queue of a worker belongs to the segment status; it is taken as the list of the
  indices that \<open>queue.NextSegment()\<close> hands this worker before it answers
  \<open>ok = false\<close>.

  The head of the loop body: with \<open>seg = -1\<close> the worker asks for the next segment.
  \<open>None\<close>: the queue is finished and the loop breaks. Otherwise the panic on a
  dispensed \<open>-1\<close>, or the segment now held, the rest of the queue and the world.
\<close>

definition acquire ::
  "int list \<Rightarrow> int \<Rightarrow> world \<Rightarrow> (abort + (int \<times> int list \<times> world)) option" where
  "acquire queue seg w =
     (if seg = -1 then
        (case queue of
           [] \<Rightarrow> None
         | s # q \<Rightarrow>
             if s = -1 then Some (Inl (PanicMsg ''Segment == -1''))
             else Some (Inr (s, q, emit [EvNextSegment s] w)))
      else Some (Inr (seg, queue, w)))"

function downloadTask_loop ::
  "env \<Rightarrow> DownloadTask \<Rightarrow> int list \<Rightarrow> int \<Rightarrow> nat \<Rightarrow> world \<Rightarrow> abort + world" where
  "downloadTask_loop e task queue seg failCount w =
     (case acquire queue seg w of
        None \<Rightarrow> Inr (emit [EvThreadDone] w)
      | Some (Inl a) \<Rightarrow> Inl a
      | Some (Inr (seg1, queue1, w0)) \<Rightarrow>
          if failCount \<ge> FailThreshold then
            downloadTask_loop e task queue1 (-1) 0
              (emit [EvDone seg1]
                 (status_downloaded seg1 \<lparr>ok = False, filename = []\<rparr>
                    (emit [EvGiveUp seg1] w0)))
          else
            (case downloadSegment e task seg1 (emit [EvCurrent seg1] w0) of
               Inl a \<Rightarrow> Inl a
             | Inr (True, w1) \<Rightarrow>
                 downloadTask_loop e task queue1 (-1) 0
                   (emit [EvDownloadedLog seg1, EvDone seg1] w1)
             | Inr (False, w1) \<Rightarrow>
                 downloadTask_loop e task queue1 seg1 (failCount + 1)
                   (emit [EvFailed seg1 (failCount + 1), EvSleep] w1)))"
  by pat_completeness auto
termination
proof (relation "measures
    [\<lambda>(e, task, queue, seg, failCount, w). length queue + (if seg = -1 then 0 else 1),
     \<lambda>(e, task, queue, seg, failCount, w). FailThreshold + 1 - failCount]",
    goal_cases)
  case 1
  show ?case by simp
next
  case (2 e task queue seg failCount w x2 b x y xa ya)
  then show ?case
    by (auto simp: acquire_def split: if_splits list.splits)
next
  case (3 e task queue seg failCount w x2 b x y xa ya x2a xb yb)
  then show ?case
    by (auto simp: acquire_def split: if_splits list.splits)
next
  case (4 e task queue seg failCount w x2 b x y xa ya x2a xb yb)
  then show ?case
    by (auto simp: acquire_def FailThreshold_def split: if_splits list.splits)
qed

text \<open>\<open>downloadTask\<close> enters the loop with \<open>failCount := 0\<close> and \<open>seg := -1\<close>.\<close>

definition downloadTask :: "env \<Rightarrow> DownloadTask \<Rightarrow> int list \<Rightarrow> world \<Rightarrow> abort + world" where
  "downloadTask e task queue w = downloadTask_loop e task queue (-1) 0 w"

subsection \<open>run and Wait\<close>

text \<open>
  The segment status is not among the sources read here; \<open>run\<close> reads its field
  \<open>end\<close>, here \<open>seg_end\<close>.
\<close>

record segmentStatus =
  seg_end :: int

text \<open>\<open>wg.Done()\<close>: the counter goes down by one, and a negative counter panics.\<close>

definition wg_Done :: "DownloadTask \<Rightarrow> abort + DownloadTask" where
  "wg_Done d =
     (if wg d - 1 < 0 then Inl (PanicMsg ''sync: negative WaitGroup counter'')
      else Inr (d\<lparr>wg := wg d - 1\<rparr>))"

text \<open>
  \<open>run\<close>. Its two collaborators are parameters: the result of \<open>newSegStatus\<close>
  (an error or the status), and \<open>work\<close>, everything between \<open>makeProgressBar\<close> and
  the return of \<open>mergeTask.wait()\<close> (the workers and the merge task running to their
  end), which yields the status as it is then and \<open>mergeTask.notMerged\<close>, or the abort
  of a worker.
\<close>

definition run ::
  "(string + segmentStatus) \<Rightarrow> (segmentStatus \<Rightarrow> abort + (segmentStatus \<times> int list))
     \<Rightarrow> DownloadTask \<Rightarrow> abort + DownloadTask" where
  "run newSegStatus work d =
     (case newSegStatus of
        Inl err \<Rightarrow> wg_Done (d\<lparr>result := (result d)\<lparr>Error := Some err\<rparr>\<rparr>)
      | Inr st \<Rightarrow>
          let d1 = d\<lparr>result := (result d)\<lparr>TotalSegments := seg_end st\<rparr>\<rparr> in
          (case work st of
             Inl a \<Rightarrow> Inl a
           | Inr (st', notMerged) \<Rightarrow>
               wg_Done (d1\<lparr>result := (result d1)\<lparr>LostSegments := notMerged\<rparr>\<rparr>)))"

text \<open>
  Modelled from the spec: \<open>extendTotal(newTotal)\<close> of the Segment Scheduler, which is
  not among the sources read here. It is called when a live stream reveals more
  segments than previously known, and is only legal to increase the total.
\<close>

definition extendTotal :: "int \<Rightarrow> segmentStatus \<Rightarrow> segmentStatus option" where
  "extendTotal newTotal st =
     (if newTotal \<ge> seg_end st then Some (st\<lparr>seg_end := newTotal\<rparr>) else None)"

subsection \<open>The worker in the words of the specification\<close>

text \<open>
  The specification describes a worker as two nested loops: for each index it is
  dispensed it starts from an attempt count of zero and attempts that index until the
  fetch succeeds or the retry policy abandons it, records the terminal outcome, and
  only then asks for the next index. \<open>shouldRetry\<close> is the retry policy,
  \<open>retry_segment\<close> the inner loop and \<open>worker_by_spec\<close> the outer one.
\<close>

definition shouldRetry :: "nat \<Rightarrow> bool" where
  "shouldRetry attemptCount = (attemptCount < FailThreshold)"

function retry_segment ::
  "env \<Rightarrow> DownloadTask \<Rightarrow> int \<Rightarrow> nat \<Rightarrow> world \<Rightarrow> abort + world" where
  "retry_segment e task seg attemptCount w =
     (if \<not> shouldRetry attemptCount then
        Inr (emit [EvGiveUp seg, EvStatusDownloaded seg \<lparr>ok = False, filename = []\<rparr>,
                   EvDone seg] w)
      else
        (case downloadSegment e task seg (emit [EvCurrent seg] w) of
           Inl a \<Rightarrow> Inl a
         | Inr (True, w1) \<Rightarrow> Inr (emit [EvDownloadedLog seg, EvDone seg] w1)
         | Inr (False, w1) \<Rightarrow>
             retry_segment e task seg (attemptCount + 1)
               (emit [EvFailed seg (attemptCount + 1), EvSleep] w1)))"
  by pat_completeness auto
termination
  by (relation "measure (\<lambda>(e, task, seg, attemptCount, w). FailThreshold - attemptCount)")
     (auto simp: shouldRetry_def)

fun worker_by_spec :: "env \<Rightarrow> DownloadTask \<Rightarrow> int list \<Rightarrow> world \<Rightarrow> abort + world" where
  "worker_by_spec e task [] w = Inr (emit [EvThreadDone] w)"
| "worker_by_spec e task (s # q) w =
     (if s = -1 then Inl (PanicMsg ''Segment == -1'')
      else
        (case retry_segment e task s 0 (emit [EvNextSegment s] w) of
           Inl a \<Rightarrow> Inl a
         | Inr w' \<Rightarrow> worker_by_spec e task q w'))"

subsection \<open>Reading a trace\<close>

text \<open>
  The terminal outcomes a trace records, in order: the index and the \<open>ok\<close> flag of
  every \<open>status.downloaded\<close> call.
\<close>

fun status_events :: "event list \<Rightarrow> (int \<times> bool) list" where
  "status_events [] = []"
| "status_events (EvStatusDownloaded s r # tr) = (s, ok r) # status_events tr"
| "status_events (ev # tr) = status_events tr"

text \<open>The events of the transport and the scratch files, as opposed to the worker's own.\<close>

fun is_io :: "event \<Rightarrow> bool" where
  "is_io (EvDo r) = True"
| "is_io (EvTempFile n) = True"
| "is_io (EvRemove n) = True"
| "is_io ev = False"

text \<open>The number of fetch attempts on a segment that a trace holds.\<close>

definition attempts :: "int \<Rightarrow> event list \<Rightarrow> nat" where
  "attempts seg tr = length (filter (\<lambda>ev. ev = EvCurrent seg) tr)"

text \<open>The world after \<open>n\<close> more \<open>Client.Do\<close> calls on one request.\<close>

definition after_tries :: "nat \<Rightarrow> request \<Rightarrow> world \<Rightarrow> world" where
  "after_tries n req w = w\<lparr>ndo := ndo w + n, trace := trace w @ replicate n (EvDo req)\<rparr>"

subsection \<open>What the properties speak of\<close>

text \<open>
  The number of failed attempts on a segment that a trace holds: the lines
  \<open>Failed segment seg [k/20]\<close>.
\<close>

definition fails :: "int \<Rightarrow> event list \<Rightarrow> nat" where
  "fails seg tr = length (filter (\<lambda>ev. \<exists>k. ev = EvFailed seg k) tr)"

text \<open>
  What one call of \<open>downloadSegment\<close> may add to the trace: transport and scratch
  file events, and one \<open>status.downloaded\<close> of a success exactly when it returns
  \<open>true\<close>.
\<close>

definition fetch_events :: "int \<Rightarrow> bool \<Rightarrow> event list \<Rightarrow> bool" where
  "fetch_events seg b evs \<longleftrightarrow>
     status_events evs = (if b then [(seg, True)] else []) \<and>
     (\<forall>ev \<in> set evs. is_io ev \<or> (b \<and> (\<exists>r. ev = EvStatusDownloaded seg r)))"

text \<open>
  What the loop does to the world when it gives a segment up (lines 148 to 151): the
  warning, \<open>status.downloaded\<close> with \<open>ok: false\<close>, and \<open>done\<close>.
\<close>

definition abandon :: "int \<Rightarrow> world \<Rightarrow> world" where
  "abandon seg w =
     emit [EvGiveUp seg, EvStatusDownloaded seg \<lparr>ok = False, filename = []\<rparr>, EvDone seg] w"

text \<open>
  \<open>k\<close> failed attempts in a row on a segment, by a worker whose failure count is
  \<open>n\<close>: \<open>k\<close> calls of \<open>downloadSegment\<close>, each on the world the one before left
  (after the worker's log line and its sleep of one second), each returning \<open>false\<close>.
  The result is the world after the last of them, and \<open>None\<close> when one of the
  \<open>k\<close> calls returns \<open>true\<close> or aborts.
\<close>

fun failed_attempts ::
  "env \<Rightarrow> DownloadTask \<Rightarrow> int \<Rightarrow> nat \<Rightarrow> nat \<Rightarrow> world \<Rightarrow> world option" where
  "failed_attempts e task seg n 0 w = Some w"
| "failed_attempts e task seg n (Suc k) w =
     (case downloadSegment e task seg (emit [EvCurrent seg] w) of
        Inr (False, w1) \<Rightarrow>
          failed_attempts e task seg (Suc n) k (emit [EvFailed seg (Suc n), EvSleep] w1)
      | _ \<Rightarrow> None)"

text \<open>
  The request \<open>downloadSegment\<close> builds for a segment, and the probe it builds for
  the bare stream URL (which gets no \<open>User-Agent\<close> header).
\<close>

definition segment_request :: "env \<Rightarrow> DownloadTask \<Rightarrow> int \<Rightarrow> request" where
  "segment_request e task seg =
     Header_Set ''User-Agent'' UserAgent
       \<lparr>req_method = ''GET'', req_url = getSegUrl e (Url task) seg, req_header = []\<rparr>"

definition probe_request :: "DownloadTask \<Rightarrow> request" where
  "probe_request task = \<lparr>req_method = ''GET'', req_url = Url task, req_header = []\<rparr>"

text \<open>
  A run of the workers and the merge task during which the stream is found to have
  \<open>newTotal\<close> segments, and which ends with the given lost segments.
\<close>

definition work_extending ::
  "int \<Rightarrow> int list \<Rightarrow> segmentStatus \<Rightarrow> abort + (segmentStatus \<times> int list)" where
  "work_extending newTotal lost st =
     (case extendTotal newTotal st of
        Some st' \<Rightarrow> Inr (st', lost)
      | None \<Rightarrow> Inr (st, lost))"

section \<open>The Merge Coordinator\<close>

text \<open>
  Modelled from the spec: the Merge Coordinator and the part of the Segment Scheduler
  it reads. \<open>makeMergeTask\<close>, \<open>mergeTask.wait\<close> and the segment status are called by
  \<open>run\<close> but are not among the sources read here, so the definitions of this section
  follow the words of the specification (sections 3, 4.2 and 4.5).

  The state holds the total, the outcomes recorded so far, the merge frontier
  \<open>highestMergedContiguous\<close>, the scratch files by path, the bytes of the output file
  and the indices recorded as lost. \<open>fetched\<close> is history: the bytes a successful
  fetch persisted for an index, kept after the scratch file is deleted, so that the
  output can be compared with them.
\<close>

datatype SegmentOutcome = Success string | PermanentFailure

record merge_state =
  total_count :: nat
  outcomes :: "nat \<rightharpoonup> SegmentOutcome"
  highestMergedContiguous :: nat
  scratch :: "string \<rightharpoonup> string"
  output_file :: string
  lostSegments :: "nat list"
  fetched :: "nat \<rightharpoonup> string"

text \<open>
  Modelled from the spec: the workers, the stream discovery and the coordinator run
  concurrently around one lock. What can happen to the state, one step at a time and in any interleaving: a worker
  persists the bytes of index \<open>i\<close> to a new scratch file and records \<open>Success\<close>, a
  worker records \<open>PermanentFailure\<close> for \<open>i\<close>, the Merge Coordinator makes one turn of
  its loop, or the total is extended.
\<close>

datatype action = Fetched nat string string | Abandoned nat | Merge | ExtendTotal nat

definition init_state :: "nat \<Rightarrow> merge_state" where
  "init_state n =
     \<lparr>total_count = n, outcomes = Map.empty, highestMergedContiguous = 0, scratch = Map.empty,
      output_file = [], lostSegments = [], fetched = Map.empty\<rparr>"

text \<open>
  Modelled from the spec: \<open>recordOutcome\<close> of the Segment Scheduler stores the
  outcome of an index. An index is dispensed once, so there is no step (\<open>None\<close>)
  for an index that has an outcome or lies beyond the total.
\<close>

definition recordOutcome :: "nat \<Rightarrow> SegmentOutcome \<Rightarrow> merge_state \<Rightarrow> merge_state option" where
  "recordOutcome i oc s =
     (if i < total_count s \<and> outcomes s i = None then Some (s\<lparr>outcomes := (outcomes s)(i \<mapsto> oc)\<rparr>)
      else None)"

text \<open>
  Modelled from the spec: one turn of the Merge Coordinator's loop: while the frontier
  is below the total and the index at the frontier has a terminal outcome, consume it. A success appends the bytes of its
  scratch file to the output and deletes the file; a permanent failure appends nothing
  and is recorded as lost; either way the frontier advances by one. With no terminal
  outcome at the frontier the coordinator is suspended and the state is unchanged. A
  scratch file that cannot be read is a merge I/O error, fatal to the run (\<open>None\<close>).
\<close>

definition merge_step :: "merge_state \<Rightarrow> merge_state option" where
  "merge_step s =
     (let i = highestMergedContiguous s in
      if i \<ge> total_count s then Some s
      else
        (case outcomes s i of
           None \<Rightarrow> Some s
         | Some PermanentFailure \<Rightarrow>
             Some (s\<lparr>lostSegments := lostSegments s @ [i], highestMergedContiguous := i + 1\<rparr>)
         | Some (Success p) \<Rightarrow>
             (case scratch s p of
                None \<Rightarrow> None
              | Some bytes \<Rightarrow>
                  Some (s\<lparr>output_file := output_file s @ bytes, scratch := (scratch s)(p := None),
                          highestMergedContiguous := i + 1\<rparr>))))"

text \<open>
  Modelled from the spec: the effect of each action. A fetch writes to a new scratch
  file, so there is no step for a path in use; \<open>extendTotal\<close> is only legal to
  increase the total.
\<close>

fun step :: "action \<Rightarrow> merge_state \<Rightarrow> merge_state option" where
  "step (Fetched i p bytes) s =
     (if scratch s p = None then
        recordOutcome i (Success p)
          (s\<lparr>scratch := (scratch s)(p \<mapsto> bytes), fetched := (fetched s)(i \<mapsto> bytes)\<rparr>)
      else None)"
| "step (Abandoned i) s = recordOutcome i PermanentFailure s"
| "step Merge s = merge_step s"
| "step (ExtendTotal n) s = (if n \<ge> total_count s then Some (s\<lparr>total_count := n\<rparr>) else None)"

fun steps :: "action list \<Rightarrow> merge_state \<Rightarrow> merge_state option" where
  "steps [] s = Some s"
| "steps (a # as) s = (case step a s of None \<Rightarrow> None | Some s' \<Rightarrow> steps as s')"

text \<open>
  The bytes persisted for an index, empty when there are none.
\<close>

definition segment_bytes :: "merge_state \<Rightarrow> nat \<Rightarrow> string" where
  "segment_bytes s i = (case fetched s i of Some bytes \<Rightarrow> bytes | None \<Rightarrow> [])"

text \<open>
  The invariant of the run. Besides what the specification states (the frontier stays
  within the total, everything below it is terminal, the output and the lost list are
  what the merged indices give), it says that every success not yet merged still has its
  scratch file with the bytes that were persisted, that no two of them share a path, and
  that only successes have persisted bytes.
\<close>

definition merge_inv :: "merge_state \<Rightarrow> bool" where
  "merge_inv s \<longleftrightarrow>
     highestMergedContiguous s \<le> total_count s \<and>
     (\<forall>i < highestMergedContiguous s. outcomes s i \<noteq> None) \<and>
     output_file s = concat (map (segment_bytes s) [0..<highestMergedContiguous s]) \<and>
     lostSegments s =
       filter (\<lambda>i. outcomes s i = Some PermanentFailure) [0..<highestMergedContiguous s] \<and>
     (\<forall>i p. highestMergedContiguous s \<le> i \<and> outcomes s i = Some (Success p) \<longrightarrow>
        (\<exists>b. scratch s p = Some b \<and> fetched s i = Some b)) \<and>
     (\<forall>i j p. highestMergedContiguous s \<le> i \<and> highestMergedContiguous s \<le> j \<and>
        outcomes s i = Some (Success p) \<and> outcomes s j = Some (Success p) \<longrightarrow> i = j) \<and>
     (\<forall>i. outcomes s i = Some PermanentFailure \<or> outcomes s i = None \<longrightarrow> fetched s i = None)"

definition successful :: "merge_state \<Rightarrow> nat \<Rightarrow> bool" where
  "successful s i = (case outcomes s i of Some (Success p) \<Rightarrow> True | _ \<Rightarrow> False)"

section \<open>Concrete environments\<close>

text \<open>
  Small closed inputs at which the properties below are instantiated: an empty world,
  an environment that accepts every non-empty URL, names its scratch files apart and
  whose disk never fails, one whose disk fails after two bytes, and five transports: one that always
  answers 200, one that always answers 404, one that never answers, and two that fail
  twice and then answer, one with 200 and one with 404.
\<close>

definition empty_world :: world where
  "empty_world = \<lparr>ndo = 0, ntmp = 0, files = Map.empty, trace = []\<rparr>"

definition plain_env :: env where
  "plain_env =
     \<lparr>getSegUrl = (\<lambda>u i. u @ ''&sq='' @ replicate (nat i) (CHR ''I'')), url_ok = (\<lambda>u. u \<noteq> []),
      tmp_name = (\<lambda>n. Some (''segment-'' @ replicate n (CHR ''I''))), write_fail = (\<lambda>n. None)\<rparr>"

definition failing_disk_env :: env where
  "failing_disk_env = plain_env\<lparr>write_fail := (\<lambda>n. Some 2)\<rparr>"

definition task_with :: "http_client \<Rightarrow> DownloadTask" where
  "task_with c =
     new_task (Some c) False None ''out.mp4'' QueueAuto ''segments'' 1 ''https://example.org/v''"

definition ok_client :: http_client where
  "ok_client = (\<lambda>n r. DoResp \<lparr>StatusCode = 200, Body = ''data'', BodyErr = False\<rparr>)"

definition not_found_client :: http_client where
  "not_found_client = (\<lambda>n r. DoResp \<lparr>StatusCode = 404, Body = [], BodyErr = False\<rparr>)"

definition dead_client :: http_client where
  "dead_client = (\<lambda>n r. DoErr)"

definition flaky_client :: http_client where
  "flaky_client =
     (\<lambda>n r. if n < 2 then DoErr
            else DoResp \<lparr>StatusCode = 200, Body = ''data'', BodyErr = False\<rparr>)"

definition late_404_client :: http_client where
  "late_404_client =
     (\<lambda>n r. if n < 2 then DoErr
            else DoResp \<lparr>StatusCode = 404, Body = [], BodyErr = False\<rparr>)"

declare doRequest_loop.simps [simp del]
declare downloadTask_loop.simps [simp del]
declare retry_segment.simps [simp del]

section \<open>Auxiliary lemmas\<close>

lemma Fatal_exits: "Fatal l = Some (Exit 1)"
  by (simp add: Fatal_def logf_def)

lemma doRequest_nil: "Client task = None \<Longrightarrow> doRequest task req w = Inl PanicNilDeref"
  by (simp add: doRequest_def doRequest_loop.simps [of task req 0] RetryThreshold_def)

lemma after_tries_Suc:
  "emit [EvDo req] (after_tries n req w\<lparr>ndo := Suc (ndo w + n)\<rparr>) = after_tries (Suc n) req w"
  by (simp add: emit_def after_tries_def replicate_append_same)

lemma doRequest_some:
  assumes "Client task = Some c"
  shows "doRequest task req w =
     (case c (ndo w) req of
        DoResp r \<Rightarrow> Inr (Some r, after_tries 1 req w)
      | DoErr \<Rightarrow>
        (case c (ndo w + 1) req of
           DoResp r \<Rightarrow> Inr (Some r, after_tries 2 req w)
         | DoErr \<Rightarrow>
           (case c (ndo w + 2) req of
              DoResp r \<Rightarrow> Inr (Some r, after_tries 3 req w)
            | DoErr \<Rightarrow> Inr (None, after_tries 3 req w))))"
  using assms
  by (simp add: doRequest_def doRequest_loop.simps [of task req] RetryThreshold_def
      emit_def after_tries_def Let_def numeral_eq_Suc split: do_result.splits)

lemma doRequest_shape:
  assumes "Client task = Some c"
  shows "\<exists>r n. doRequest task req w = Inr (r, after_tries n req w) \<and> 1 \<le> n \<and> n \<le> 3"
  unfolding doRequest_some [OF assms]
  by (auto split: do_result.splits)

lemma trace_after_tries [simp]: "trace (after_tries n req w) = trace w @ replicate n (EvDo req)"
  and files_after_tries [simp]: "files (after_tries n req w) = files w"
  and ntmp_after_tries [simp]: "ntmp (after_tries n req w) = ntmp w"
  and ndo_after_tries [simp]: "ndo (after_tries n req w) = ndo w + n"
  by (simp_all add: after_tries_def)

lemma trace_emit [simp]: "trace (emit evs w) = trace w @ evs"
  and files_emit [simp]: "files (emit evs w) = files w"
  and ntmp_emit [simp]: "ntmp (emit evs w) = ntmp w"
  and ndo_emit [simp]: "ndo (emit evs w) = ndo w"
  by (simp_all add: emit_def)

lemma downloadSegment_nil:
  assumes "Client task = None"
  shows "downloadSegment e task seg w =
     (if url_ok e (getSegUrl e (Url task) seg) then Inl PanicNilDeref else Inl (Exit 1))"
  using assms by (simp add: downloadSegment_def NewRequest_def doRequest_nil)

lemma status_events_append [simp]:
  "status_events (xs @ ys) = status_events xs @ status_events ys"
  by (induction xs rule: status_events.induct) simp_all

lemma status_events_replicate_Do [simp]: "status_events (replicate n (EvDo r)) = []"
  by (induction n) simp_all

lemma downloadSegment_events:
  assumes "downloadSegment e task seg w = Inr (b, w')"
  shows "\<exists>evs. trace w' = trace w @ evs \<and> fetch_events seg b evs"
proof (cases "Client task")
  case None
  with assms show ?thesis by (simp add: downloadSegment_nil split: if_splits)
next
  case (Some c)
  note sh = doRequest_shape [OF Some]
  show ?thesis
  proof (cases "NewRequest e ''GET'' (getSegUrl e (Url task) seg)")
    case None
    with assms show ?thesis by (simp add: downloadSegment_def)
  next
    case (Some req0)
    note rq = this
    obtain r n where d1: "doRequest task (Header_Set ''User-Agent'' UserAgent req0) w
          = Inr (r, after_tries n (Header_Set ''User-Agent'' UserAgent req0) w)"
      using sh by blast
    show ?thesis
    proof (cases r)
      case None
      with assms rq d1 show ?thesis
        by (auto simp: downloadSegment_def fetch_events_def)
    next
      case (Some resp)
      note r = this
      show ?thesis
      proof (cases "StatusCode resp = 200")
        case False
        show ?thesis
        proof (cases "NewRequest e ''GET'' (Url task)")
          case None
          with assms rq d1 r False show ?thesis
            by (auto simp: downloadSegment_def fetch_events_def)
        next
          case (Some preq)
          obtain pr m where d2: "doRequest task preq
                (after_tries n (Header_Set ''User-Agent'' UserAgent req0) w)
              = Inr (pr, after_tries m preq
                  (after_tries n (Header_Set ''User-Agent'' UserAgent req0) w))"
            using sh by blast
          with assms rq d1 r False Some show ?thesis
            by (auto simp: downloadSegment_def fetch_events_def)
        qed
      next
        case True
        with assms rq d1 r show ?thesis
          by (auto simp: downloadSegment_def TempFile_def io_Copy_def os_Remove_def
              status_downloaded_def fetch_events_def
              split: option.splits if_splits prod.splits bool.splits)
      qed
    qed
  qed
qed

lemma emit_emit [simp]: "emit ys (emit xs w) = emit (xs @ ys) w"
  by (simp add: emit_def)

lemma loop_held:
  "seg \<noteq> -1 \<Longrightarrow>
   downloadTask_loop e task q seg n w =
     (case retry_segment e task seg n w of
        Inl a \<Rightarrow> Inl a
      | Inr w' \<Rightarrow> downloadTask_loop e task q (-1) 0 w')"
proof (induction e task seg n w rule: retry_segment.induct)
  case (1 e task seg n w)
  show ?case
  proof (cases "shouldRetry n")
    case False
    with "1.prems" show ?thesis
      by (simp add: downloadTask_loop.simps [of e task q seg n w]
          retry_segment.simps [of e task seg n w] acquire_def shouldRetry_def
          status_downloaded_def)
  next
    case True
    show ?thesis
    proof (cases "downloadSegment e task seg (emit [EvCurrent seg] w)")
      case (Inl a)
      with True "1.prems" show ?thesis
        by (simp add: downloadTask_loop.simps [of e task q seg n w]
            retry_segment.simps [of e task seg n w] acquire_def shouldRetry_def)
    next
      case (Inr p)
      obtain b w1 where p: "p = (b, w1)" by (cases p)
      show ?thesis
      proof (cases b)
        case True
        with \<open>shouldRetry n\<close> "1.prems" Inr p show ?thesis
          by (simp add: downloadTask_loop.simps [of e task q seg n w]
              retry_segment.simps [of e task seg n w] acquire_def shouldRetry_def)
      next
        case False
        have "downloadTask_loop e task q seg (n + 1)
                (emit [EvFailed seg (n + 1), EvSleep] w1) =
              (case retry_segment e task seg (n + 1)
                      (emit [EvFailed seg (n + 1), EvSleep] w1) of
                 Inl a \<Rightarrow> Inl a
               | Inr w' \<Rightarrow> downloadTask_loop e task q (-1) 0 w')"
          using "1.IH" [of "(False, w1)" False w1] \<open>shouldRetry n\<close> Inr p False "1.prems"
          by simp
        with False \<open>shouldRetry n\<close> "1.prems" Inr p show ?thesis
          by (simp add: downloadTask_loop.simps [of e task q seg n w]
              retry_segment.simps [of e task seg n w] acquire_def shouldRetry_def)
      qed
    qed
  qed
qed

lemma loop_is_worker_by_spec:
  "downloadTask_loop e task q (-1) 0 w = worker_by_spec e task q w"
proof (induction q arbitrary: w)
  case Nil
  show ?case
    by (simp add: downloadTask_loop.simps [of e task "[]" "-1" 0 w] acquire_def)
next
  case (Cons s q)
  show ?case
  proof (cases "s = -1")
    case True
    then show ?thesis
      by (subst downloadTask_loop.simps) (simp add: acquire_def)
  next
    case False
    have "downloadTask_loop e task (s # q) (-1) 0 w =
          downloadTask_loop e task q s 0 (emit [EvNextSegment s] w)"
      using False
      by (simp add: downloadTask_loop.simps [of e task "s # q" "-1" 0 w]
          downloadTask_loop.simps [of e task q s 0 "emit [EvNextSegment s] w"]
          acquire_def)
    with False Cons.IH show ?thesis
      by (simp add: loop_held split: sum.splits)
  qed
qed

lemma attempts_append [simp]: "attempts s (xs @ ys) = attempts s xs + attempts s ys"
  by (simp add: attempts_def)

lemma fails_append [simp]: "fails s (xs @ ys) = fails s xs + fails s ys"
  by (simp add: fails_def)

lemma attempts_Nil [simp]: "attempts s [] = 0"
  by (simp add: attempts_def)

lemma fails_Nil [simp]: "fails s [] = 0"
  by (simp add: fails_def)

lemma attempts_Cons [simp]:
  "attempts s (ev # tr) = (if ev = EvCurrent s then 1 else 0) + attempts s tr"
  by (simp add: attempts_def)

lemma fails_Cons [simp]:
  "fails s (ev # tr) = (if \<exists>k. ev = EvFailed s k then 1 else 0) + fails s tr"
  by (simp add: fails_def)

lemma fetch_events_counts:
  assumes "fetch_events seg b evs"
  shows "attempts s evs = 0" and "fails s evs = 0"
proof -
  have "\<forall>ev \<in> set evs. ev \<noteq> EvCurrent s \<and> (\<forall>k. ev \<noteq> EvFailed s k)"
    using assms by (auto simp: fetch_events_def)
  then show "attempts s evs = 0" and "fails s evs = 0"
    by (induction evs) auto
qed

lemma retry_segment_events:
  "retry_segment e task seg n w = Inr w' \<Longrightarrow> n \<le> FailThreshold \<Longrightarrow>
   \<exists>evs b. trace w' = trace w @ evs \<and> status_events evs = [(seg, b)] \<and>
     attempts seg evs = fails seg evs + (if b then 1 else 0) \<and>
     fails seg evs \<le> FailThreshold - n \<and>
     (b \<longleftrightarrow> fails seg evs < FailThreshold - n)"
proof (induction e task seg n w rule: retry_segment.induct)
  case (1 e task seg n w)
  show ?case
  proof (cases "shouldRetry n")
    case False
    with "1.prems" have n: "n = FailThreshold" by (simp add: shouldRetry_def)
    from False "1.prems"(1)
    have "trace w' = trace w @
        [EvGiveUp seg, EvStatusDownloaded seg \<lparr>ok = False, filename = []\<rparr>, EvDone seg]"
      by (auto simp: retry_segment.simps [of e task seg n w])
    then show ?thesis using n
      by (intro exI [of _ "[EvGiveUp seg,
            EvStatusDownloaded seg \<lparr>ok = False, filename = []\<rparr>, EvDone seg]"]
          exI [of _ False]) simp
  next
    case True
    then have lt: "n < FailThreshold" by (simp add: shouldRetry_def)
    from True "1.prems"(1) obtain b w1 where
      ds: "downloadSegment e task seg (emit [EvCurrent seg] w) = Inr (b, w1)"
      by (auto simp: retry_segment.simps [of e task seg n w] split: sum.splits)
    from downloadSegment_events [OF ds] obtain evs0 where
      t1: "trace w1 = trace w @ EvCurrent seg # evs0" and fe: "fetch_events seg b evs0"
      by auto
    note cnt = fetch_events_counts [OF fe]
    show ?thesis
    proof (cases b)
      case True
      with \<open>shouldRetry n\<close> "1.prems"(1) ds
      have "w' = emit [EvDownloadedLog seg, EvDone seg] w1"
        by (simp add: retry_segment.simps [of e task seg n w])
      with t1 have "trace w' = trace w @ (EvCurrent seg # evs0 @ [EvDownloadedLog seg, EvDone seg])"
        by simp
      moreover have "status_events (EvCurrent seg # evs0 @ [EvDownloadedLog seg, EvDone seg]) = [(seg, True)]"
        using fe True by (simp add: fetch_events_def)
      ultimately show ?thesis using cnt lt
        by (intro exI [of _ "EvCurrent seg # evs0 @ [EvDownloadedLog seg, EvDone seg]"]
            exI [of _ True]) simp
    next
      case False
      with \<open>shouldRetry n\<close> "1.prems"(1) ds
      have r: "retry_segment e task seg (n + 1) (emit [EvFailed seg (n + 1), EvSleep] w1) = Inr w'"
        by (simp add: retry_segment.simps [of e task seg n w])
      from "1.IH" [of "(False, w1)" False w1] \<open>shouldRetry n\<close> ds False r lt
      obtain evs b' where
        t2: "trace w' = trace (emit [EvFailed seg (n + 1), EvSleep] w1) @ evs"
        and se: "status_events evs = [(seg, b')]"
        and at: "attempts seg evs = fails seg evs + (if b' then 1 else 0)"
        and le: "fails seg evs \<le> FailThreshold - (n + 1)"
        and iff: "b' \<longleftrightarrow> fails seg evs < FailThreshold - (n + 1)"
        by auto
      let ?all = "EvCurrent seg # evs0 @ [EvFailed seg (n + 1), EvSleep] @ evs"
      have "trace w' = trace w @ ?all" using t1 t2 by simp
      moreover have "status_events ?all = [(seg, b')]"
        using fe False se by (simp add: fetch_events_def)
      moreover have "attempts seg ?all = fails seg ?all + (if b' then 1 else 0)"
        using cnt at by simp
      moreover have "fails seg ?all \<le> FailThreshold - n" using cnt le lt by simp
      moreover have "b' \<longleftrightarrow> fails seg ?all < FailThreshold - n"
        using cnt iff lt by auto
      ultimately show ?thesis by blast
    qed
  qed
qed

lemma retry_segment_all_fail:
  "\<forall>w. \<exists>w1. downloadSegment e task seg w = Inr (False, w1) \<Longrightarrow>
   \<exists>w'. retry_segment e task seg n w = Inr w' \<and>
     status_events (trace w') = status_events (trace w) @ [(seg, False)]"
proof (induction e task seg n w rule: retry_segment.induct)
  case (1 e task seg n w)
  show ?case
  proof (cases "shouldRetry n")
    case False
    then show ?thesis
      by (simp add: retry_segment.simps [of e task seg n w])
  next
    case True
    from "1.prems" obtain w1 where
      ds: "downloadSegment e task seg (emit [EvCurrent seg] w) = Inr (False, w1)" by blast
    from downloadSegment_events [OF ds] have
      t1: "status_events (trace w1) = status_events (trace w)"
      by (auto simp: fetch_events_def)
    from "1.IH" [of "(False, w1)" False w1] True ds "1.prems"
    obtain w' where "retry_segment e task seg (n + 1)
        (emit [EvFailed seg (n + 1), EvSleep] w1) = Inr w'"
      and "status_events (trace w') =
           status_events (trace (emit [EvFailed seg (n + 1), EvSleep] w1)) @ [(seg, False)]"
      by auto
    with True ds t1 show ?thesis
      by (simp add: retry_segment.simps [of e task seg n w])
  qed
qed

lemma NewRequest_ok:
  "url_ok e u \<Longrightarrow> NewRequest e m u = Some \<lparr>req_method = m, req_url = u, req_header = []\<rparr>"
  by (simp add: NewRequest_def)

lemma doRequest_Inr_client:
  "doRequest task req w = Inr p \<Longrightarrow> \<exists>c. Client task = Some c"
  by (cases "Client task") (simp_all add: doRequest_nil)

lemma doRequest_Inr_shape:
  assumes "doRequest task req w = Inr (r, w1)"
  shows "\<exists>n. w1 = after_tries n req w \<and> 1 \<le> n \<and> n \<le> 3"
proof -
  from doRequest_Inr_client [OF assms] obtain c where "Client task = Some c" by blast
  from doRequest_shape [OF this, of req w] assms show ?thesis by auto
qed

lemma worker_by_spec_outcomes:
  "worker_by_spec e task q w = Inr w' \<Longrightarrow>
   map fst (status_events (trace w')) = map fst (status_events (trace w)) @ q"
proof (induction q arbitrary: w)
  case Nil
  then show ?case by auto
next
  case (Cons s q)
  from Cons.prems obtain w1 where
    r: "retry_segment e task s 0 (emit [EvNextSegment s] w) = Inr w1"
    and rest: "worker_by_spec e task q w1 = Inr w'"
    by (auto split: if_splits sum.splits)
  from retry_segment_events [OF r] obtain evs b where
    "trace w1 = trace (emit [EvNextSegment s] w) @ evs" "status_events evs = [(s, b)]"
    by auto
  then have "map fst (status_events (trace w1)) = map fst (status_events (trace w)) @ [s]"
    by simp
  with Cons.IH [OF rest] show ?case by simp
qed

lemma loop_held_rest:
  assumes "seg \<noteq> -1"
  shows "downloadTask_loop e task q seg n w =
     (case retry_segment e task seg n w of
        Inl a \<Rightarrow> Inl a
      | Inr w1 \<Rightarrow> worker_by_spec e task q w1)"
  by (simp add: loop_held [OF assms] loop_is_worker_by_spec split: sum.splits)

lemma failed_attempts_Suc_D:
  assumes "failed_attempts e task seg n (Suc k) w = Some wk"
  shows "\<exists>w1. downloadSegment e task seg (emit [EvCurrent seg] w) = Inr (False, w1) \<and>
     failed_attempts e task seg (Suc n) k (emit [EvFailed seg (Suc n), EvSleep] w1) = Some wk"
  using assms by (auto split: sum.splits prod.splits bool.splits)

lemma retry_after_failed_attempts:
  "failed_attempts e task seg n k w = Some wk \<Longrightarrow> n + k \<le> FailThreshold \<Longrightarrow>
   retry_segment e task seg n w = retry_segment e task seg (n + k) wk"
proof (induction k arbitrary: n w)
  case 0
  then show ?case by simp
next
  case (Suc k)
  from failed_attempts_Suc_D [OF Suc.prems(1)] obtain w1 where
    ds: "downloadSegment e task seg (emit [EvCurrent seg] w) = Inr (False, w1)"
    and fa: "failed_attempts e task seg (Suc n) k (emit [EvFailed seg (Suc n), EvSleep] w1) = Some wk"
    by blast
  from Suc.prems(2) have lt: "n < FailThreshold" and le: "Suc n + k \<le> FailThreshold" by simp_all
  have "retry_segment e task seg n w =
      retry_segment e task seg (Suc n) (emit [EvFailed seg (Suc n), EvSleep] w1)"
    using ds lt by (simp add: retry_segment.simps [of e task seg n w] shouldRetry_def)
  also have "\<dots> = retry_segment e task seg (Suc n + k) wk"
    by (rule Suc.IH [OF fa le])
  finally show ?case by simp
qed

lemma retry_at_threshold:
  "retry_segment e task seg FailThreshold w = Inr (abandon seg w)"
  by (simp add: retry_segment.simps [of e task seg FailThreshold w] shouldRetry_def abandon_def)

lemma failed_attempts_trace:
  "failed_attempts e task seg n k w = Some wk \<Longrightarrow>
   status_events (trace wk) = status_events (trace w) \<and>
   attempts seg (trace wk) = attempts seg (trace w) + k"
proof (induction k arbitrary: n w)
  case 0
  then show ?case by simp
next
  case (Suc k)
  from failed_attempts_Suc_D [OF Suc.prems] obtain w1 where
    ds: "downloadSegment e task seg (emit [EvCurrent seg] w) = Inr (False, w1)"
    and fa: "failed_attempts e task seg (Suc n) k (emit [EvFailed seg (Suc n), EvSleep] w1) = Some wk"
    by blast
  from downloadSegment_events [OF ds] obtain evs where
    t: "trace w1 = trace w @ EvCurrent seg # evs" and fe: "fetch_events seg False evs"
    by auto
  from fe have "status_events evs = []" by (simp add: fetch_events_def)
  with t fetch_events_counts(1) [OF fe, of seg] Suc.IH [OF fa] show ?case by simp
qed

lemma failed_attempts_exhaustive:
  "n \<le> FailThreshold \<Longrightarrow>
   \<exists>k wk. n + k \<le> FailThreshold \<and> failed_attempts e task seg n k w = Some wk \<and>
     (n + k = FailThreshold \<or>
      (\<exists>a. downloadSegment e task seg (emit [EvCurrent seg] wk) = Inl a) \<or>
      (\<exists>w1. downloadSegment e task seg (emit [EvCurrent seg] wk) = Inr (True, w1)))"
proof (induction e task seg n w rule: retry_segment.induct)
  case (1 e task seg n w)
  show ?case
  proof (cases "n = FailThreshold")
    case True
    then show ?thesis by (intro exI [of _ 0] exI [of _ w]) simp
  next
    case False
    with "1.prems" have lt: "n < FailThreshold" by simp
    show ?thesis
    proof (cases "downloadSegment e task seg (emit [EvCurrent seg] w)")
      case (Inl a)
      with "1.prems" show ?thesis by (intro exI [of _ 0] exI [of _ w]) simp
    next
      case (Inr p)
      obtain b w1 where p: "p = (b, w1)" by (cases p)
      show ?thesis
      proof (cases b)
        case True
        with Inr p "1.prems" show ?thesis by (intro exI [of _ 0] exI [of _ w]) simp
      next
        case False
        from "1.IH" [of "(False, w1)" False w1] Inr p False lt
        obtain k wk where le: "n + 1 + k \<le> FailThreshold"
          and fa: "failed_attempts e task seg (n + 1) k
              (emit [EvFailed seg (n + 1), EvSleep] w1) = Some wk"
          and fin: "n + 1 + k = FailThreshold \<or>
            (\<exists>a. downloadSegment e task seg (emit [EvCurrent seg] wk) = Inl a) \<or>
            (\<exists>w1. downloadSegment e task seg (emit [EvCurrent seg] wk) = Inr (True, w1))"
          by (auto simp: shouldRetry_def)
        have "failed_attempts e task seg n (Suc k) w = Some wk"
          using Inr p False fa by simp
        with le fin show ?thesis
          by (intro exI [of _ "Suc k"] exI [of _ wk]) simp
      qed
    qed
  qed
qed

lemma failed_attempts_all_fail:
  assumes "\<forall>w0. \<exists>w1. downloadSegment e task seg w0 = Inr (False, w1)"
  shows "\<exists>wk. failed_attempts e task seg n k w = Some wk"
proof (induction k arbitrary: n w)
  case 0
  show ?case by simp
next
  case (Suc k)
  from assms obtain w1 where
    "downloadSegment e task seg (emit [EvCurrent seg] w) = Inr (False, w1)" by blast
  with Suc.IH [of "Suc n" "emit [EvFailed seg (Suc n), EvSleep] w1"] show ?case by simp
qed

lemma dead_client_fails:
  "downloadSegment plain_env (task_with dead_client) seg w =
     Inr (False, after_tries 3 (segment_request plain_env (task_with dead_client) seg) w)"
proof -
  have c: "Client (task_with dead_client) = Some dead_client"
    by (simp add: task_with_def new_task_def)
  have d: "doRequest (task_with dead_client) req w = Inr (None, after_tries 3 req w)" for req
    by (subst doRequest_some [OF c]) (simp add: dead_client_def)
  have u: "url_ok plain_env (getSegUrl plain_env (Url (task_with dead_client)) seg)"
    by (simp add: plain_env_def)
  show ?thesis
    by (simp add: downloadSegment_def NewRequest_ok [OF u] segment_request_def [symmetric] d)
qed

lemma dead_client_failed_attempts:
  "\<exists>wk. failed_attempts plain_env (task_with dead_client) seg n k w = Some wk \<and>
     ndo wk = ndo w + 3 * k"
proof (induction k arbitrary: n w)
  case 0
  show ?case by simp
next
  case (Suc k)
  let ?w1 = "after_tries 3 (segment_request plain_env (task_with dead_client) seg)
      (emit [EvCurrent seg] w)"
  from Suc.IH [of "Suc n" "emit [EvFailed seg (Suc n), EvSleep] ?w1"]
  show ?case by (auto simp: dead_client_fails)
qed

lemma doRequest_first_success:
  assumes "Client task = Some c" and "k < RetryThreshold"
    and "\<forall>j < k. c (ndo w + j) req = DoErr" and "c (ndo w + k) req = DoResp resp"
  shows "doRequest task req w = Inr (Some resp, after_tries (k + 1) req w)"
proof -
  from assms(2) have "k = 0 \<or> k = 1 \<or> k = 2"
    unfolding RetryThreshold_def by arith
  then consider "k = 0" | "k = 1" | "k = 2" by blast
  then show ?thesis
  proof cases
    case 1
    with assms(4) show ?thesis by (simp add: doRequest_some [OF assms(1)])
  next
    case 2
    with assms(3) have "c (ndo w) req = DoErr" by simp
    with 2 assms(4) show ?thesis
      by (simp add: doRequest_some [OF assms(1)] numeral_2_eq_2)
  next
    case 3
    from assms(3) [rule_format, of 0] assms(3) [rule_format, of 1] 3
    have "c (ndo w) req = DoErr" "c (ndo w + 1) req = DoErr"
      by simp_all
    with 3 assms(4) show ?thesis
      by (simp add: doRequest_some [OF assms(1)])
  qed
qed

lemma loop_after_failed_attempt:
  assumes "seg \<noteq> -1" and "n < FailThreshold"
    and "downloadSegment e task seg (emit [EvCurrent seg] w) = Inr (False, w1)"
  shows "downloadTask_loop e task q seg n w =
     (case retry_segment e task seg (n + 1) (emit [EvFailed seg (n + 1), EvSleep] w1) of
        Inl a \<Rightarrow> Inl a
      | Inr w' \<Rightarrow> worker_by_spec e task q w')"
  using assms(2,3)
  by (simp add: loop_held_rest [OF assms(1)] retry_segment.simps [of e task seg n w]
      shouldRetry_def)

lemma loop_after_success:
  assumes "seg \<noteq> -1" and "n < FailThreshold"
    and "downloadSegment e task seg (emit [EvCurrent seg] w) = Inr (True, w1)"
  shows "downloadTask_loop e task q seg n w =
     worker_by_spec e task q (emit [EvDownloadedLog seg, EvDone seg] w1)"
  using assms(2,3)
  by (simp add: loop_held_rest [OF assms(1)] retry_segment.simps [of e task seg n w]
      shouldRetry_def)

lemma downloadSegment_non_200:
  assumes "Client task = Some c" and "url_ok e (getSegUrl e (Url task) seg)"
    and "doRequest task (segment_request e task seg) w = Inr (Some resp, w1)"
    and "StatusCode resp \<noteq> 200"
  shows "\<exists>w2. downloadSegment e task seg w = Inr (False, w2) \<and>
     status_events (trace w2) = status_events (trace w)"
proof -
  from doRequest_Inr_shape [OF assms(3)] obtain m where
    w1: "w1 = after_tries m (segment_request e task seg) w" by blast
  show ?thesis
  proof (cases "NewRequest e ''GET'' (Url task)")
    case None
    with assms show ?thesis
      by (simp add: downloadSegment_def NewRequest_ok segment_request_def [symmetric] w1)
  next
    case (Some preq)
    from doRequest_shape [OF assms(1), of preq w1] obtain presp n where
      "doRequest task preq w1 = Inr (presp, after_tries n preq w1)" by blast
    with Some assms show ?thesis
      by (simp add: downloadSegment_def NewRequest_ok segment_request_def [symmetric] w1)
  qed
qed

lemma ok_client_succeeds:
  "\<exists>w1. downloadSegment plain_env (task_with ok_client) seg w = Inr (True, w1)"
proof -
  have c: "Client (task_with ok_client) = Some ok_client"
    by (simp add: task_with_def new_task_def)
  have d: "doRequest (task_with ok_client) req w =
      Inr (Some \<lparr>StatusCode = 200, Body = ''data'', BodyErr = False\<rparr>, after_tries 1 req w)"
    for req
    by (subst doRequest_some [OF c]) (simp add: ok_client_def)
  have u: "url_ok plain_env (getSegUrl plain_env (Url (task_with ok_client)) seg)"
    by (simp add: plain_env_def)
  have t: "tmp_name plain_env k = Some (''segment-'' @ replicate k (CHR ''I''))"
    "write_fail plain_env k = None" for k
    by (simp_all add: plain_env_def)
  show ?thesis
    by (simp add: downloadSegment_def NewRequest_ok [OF u] segment_request_def [symmetric] d
        TempFile_def io_Copy_def t)
qed

lemma ok_client_retry:
  "\<exists>w1. retry_segment plain_env (task_with ok_client) seg 0 w = Inr w1"
proof -
  from ok_client_succeeds [of seg "emit [EvCurrent seg] w"] obtain w1 where
    "downloadSegment plain_env (task_with ok_client) seg (emit [EvCurrent seg] w) = Inr (True, w1)"
    by blast
  then show ?thesis
    by (simp add: retry_segment.simps [of _ _ seg 0 w] shouldRetry_def FailThreshold_def)
qed

lemma merge_invI:
  assumes "highestMergedContiguous s \<le> total_count s"
    and "\<And>i. i < highestMergedContiguous s \<Longrightarrow> outcomes s i \<noteq> None"
    and "output_file s = concat (map (segment_bytes s) [0..<highestMergedContiguous s])"
    and "lostSegments s =
       filter (\<lambda>i. outcomes s i = Some PermanentFailure) [0..<highestMergedContiguous s]"
    and "\<And>i p. highestMergedContiguous s \<le> i \<Longrightarrow> outcomes s i = Some (Success p) \<Longrightarrow>
        \<exists>b. scratch s p = Some b \<and> fetched s i = Some b"
    and "\<And>i j p. highestMergedContiguous s \<le> i \<Longrightarrow> highestMergedContiguous s \<le> j \<Longrightarrow>
        outcomes s i = Some (Success p) \<Longrightarrow> outcomes s j = Some (Success p) \<Longrightarrow> i = j"
    and "\<And>i. outcomes s i = Some PermanentFailure \<or> outcomes s i = None \<Longrightarrow> fetched s i = None"
  shows "merge_inv s"
  unfolding merge_inv_def using assms by blast

lemma merge_invD:
  assumes "merge_inv s"
  shows "highestMergedContiguous s \<le> total_count s"
    and "\<And>i. i < highestMergedContiguous s \<Longrightarrow> outcomes s i \<noteq> None"
    and "output_file s = concat (map (segment_bytes s) [0..<highestMergedContiguous s])"
    and "lostSegments s =
       filter (\<lambda>i. outcomes s i = Some PermanentFailure) [0..<highestMergedContiguous s]"
    and "\<And>i p. highestMergedContiguous s \<le> i \<Longrightarrow> outcomes s i = Some (Success p) \<Longrightarrow>
        \<exists>b. scratch s p = Some b \<and> fetched s i = Some b"
    and "\<And>i j p. highestMergedContiguous s \<le> i \<Longrightarrow> highestMergedContiguous s \<le> j \<Longrightarrow>
        outcomes s i = Some (Success p) \<Longrightarrow> outcomes s j = Some (Success p) \<Longrightarrow> i = j"
    and "\<And>i. outcomes s i = Some PermanentFailure \<or> outcomes s i = None \<Longrightarrow> fetched s i = None"
  using assms unfolding merge_inv_def by blast+

lemma inv_init: "merge_inv (init_state n)"
  by (simp add: merge_inv_def init_state_def)

lemma inv_unrecorded:
  assumes "merge_inv s" "outcomes s i = None"
  shows "highestMergedContiguous s \<le> i"
  using merge_invD(2) [OF assms(1), of i] assms(2) by (auto simp: not_less [symmetric])

lemma inv_record_fail:
  assumes "merge_inv s" "recordOutcome i PermanentFailure s = Some s'"
  shows "merge_inv s'"
proof -
  note inv = merge_invD [OF assms(1)]
  from assms(2) have i: "i < total_count s" "outcomes s i = None"
    and s': "s' = s\<lparr>outcomes := (outcomes s)(i \<mapsto> PermanentFailure)\<rparr>"
    by (auto simp: recordOutcome_def split: if_splits)
  from assms(1) i have ge: "highestMergedContiguous s \<le> i"
    by (simp add: inv_unrecorded)
  have hm: "highestMergedContiguous s' = highestMergedContiguous s"
    and ou: "output_file s' = output_file s" and lo: "lostSegments s' = lostSegments s"
    and to: "total_count s' = total_count s" and sc: "scratch s' = scratch s"
    and fe: "fetched s' = fetched s"
    and oi: "outcomes s' i = Some PermanentFailure"
    and oj: "\<And>j. j \<noteq> i \<Longrightarrow> outcomes s' j = outcomes s j"
    by (simp_all add: s')
  have sb: "segment_bytes s' = segment_bytes s"
    by (simp add: segment_bytes_def fun_eq_iff fe)
  have fl: "filter (\<lambda>j. outcomes s' j = Some PermanentFailure)
              [0..<highestMergedContiguous s] =
            filter (\<lambda>j. outcomes s j = Some PermanentFailure) [0..<highestMergedContiguous s]"
    using ge by (intro filter_cong) (auto simp: oj)
  show ?thesis
  proof (rule merge_invI)
    show "highestMergedContiguous s' \<le> total_count s'" using inv(1) by (simp add: hm to)
    show "outcomes s' j \<noteq> None" if "j < highestMergedContiguous s'" for j
      using inv(2) [of j] that ge by (cases "j = i") (simp_all add: hm oi oj)
    show "output_file s' = concat (map (segment_bytes s') [0..<highestMergedContiguous s'])"
      using inv(3) by (simp add: hm ou sb)
    show "lostSegments s' =
       filter (\<lambda>i. outcomes s' i = Some PermanentFailure) [0..<highestMergedContiguous s']"
      using inv(4) by (simp add: hm lo fl)
    show "\<exists>b. scratch s' p = Some b \<and> fetched s' j = Some b"
      if "highestMergedContiguous s' \<le> j" "outcomes s' j = Some (Success p)" for j p
    proof -
      from that(2) oi have "j \<noteq> i" by auto
      with that oj have "outcomes s j = Some (Success p)" by simp
      with inv(5) [of j p] that(1) show ?thesis by (simp add: hm sc fe)
    qed
    show "j = k"
      if "highestMergedContiguous s' \<le> j" "highestMergedContiguous s' \<le> k"
        "outcomes s' j = Some (Success p)" "outcomes s' k = Some (Success p)" for j k p
    proof -
      from that(3,4) oi have "j \<noteq> i" "k \<noteq> i" by auto
      with that oj have "outcomes s j = Some (Success p)" "outcomes s k = Some (Success p)"
        by simp_all
      with inv(6) [of j k p] that(1,2) show ?thesis by (simp add: hm)
    qed
    show "fetched s' j = None"
      if "outcomes s' j = Some PermanentFailure \<or> outcomes s' j = None" for j
    proof (cases "j = i")
      case True
      with inv(7) [of i] i show ?thesis by (simp add: fe)
    next
      case False
      with that oj inv(7) [of j] show ?thesis by (simp add: fe)
    qed
  qed
qed

lemma inv_fetched:
  assumes "merge_inv s" "step (Fetched i p bytes) s = Some s'"
  shows "merge_inv s'"
proof -
  note inv = merge_invD [OF assms(1)]
  from assms(2) have i: "i < total_count s" "outcomes s i = None" and p: "scratch s p = None"
    and s': "s' = s\<lparr>scratch := (scratch s)(p \<mapsto> bytes), fetched := (fetched s)(i \<mapsto> bytes),
                    outcomes := (outcomes s)(i \<mapsto> Success p)\<rparr>"
    by (auto simp: recordOutcome_def split: if_splits)
  from assms(1) i have ge: "highestMergedContiguous s \<le> i"
    by (simp add: inv_unrecorded)
  have hm: "highestMergedContiguous s' = highestMergedContiguous s"
    and ou: "output_file s' = output_file s" and lo: "lostSegments s' = lostSegments s"
    and to: "total_count s' = total_count s"
    and scp: "scratch s' p = Some bytes"
    and scq: "\<And>q. q \<noteq> p \<Longrightarrow> scratch s' q = scratch s q"
    and fei: "fetched s' i = Some bytes"
    and fej: "\<And>j. j \<noteq> i \<Longrightarrow> fetched s' j = fetched s j"
    and oi: "outcomes s' i = Some (Success p)"
    and oj: "\<And>j. j \<noteq> i \<Longrightarrow> outcomes s' j = outcomes s j"
    by (simp_all add: s')
  have sb: "map (segment_bytes s') [0..<highestMergedContiguous s] =
            map (segment_bytes s) [0..<highestMergedContiguous s]"
    using ge by (intro map_cong) (auto simp: segment_bytes_def fej)
  have fl: "filter (\<lambda>j. outcomes s' j = Some PermanentFailure)
              [0..<highestMergedContiguous s] =
            filter (\<lambda>j. outcomes s j = Some PermanentFailure) [0..<highestMergedContiguous s]"
    using ge by (intro filter_cong) (auto simp: oj)
  have fresh: "outcomes s j \<noteq> Some (Success p)" if "highestMergedContiguous s \<le> j" for j
    using inv(5) [of j p] that p by auto
  show ?thesis
  proof (rule merge_invI)
    show "highestMergedContiguous s' \<le> total_count s'" using inv(1) by (simp add: hm to)
    show "outcomes s' j \<noteq> None" if "j < highestMergedContiguous s'" for j
      using inv(2) [of j] that ge by (cases "j = i") (simp_all add: hm oi oj)
    show "output_file s' = concat (map (segment_bytes s') [0..<highestMergedContiguous s'])"
      using inv(3) by (simp add: hm ou sb)
    show "lostSegments s' =
       filter (\<lambda>i. outcomes s' i = Some PermanentFailure) [0..<highestMergedContiguous s']"
      using inv(4) by (simp add: hm lo fl)
    show "\<exists>b. scratch s' q = Some b \<and> fetched s' j = Some b"
      if "highestMergedContiguous s' \<le> j" "outcomes s' j = Some (Success q)" for j q
    proof (cases "j = i")
      case True
      with that(2) oi have "q = p" by simp
      with True scp fei show ?thesis by simp
    next
      case False
      with that oj have o: "outcomes s j = Some (Success q)" by simp
      with fresh [of j] that(1) have "q \<noteq> p" by (auto simp: hm)
      with inv(5) [of j q] o that(1) False show ?thesis by (simp add: hm scq fej)
    qed
    show "j = k"
      if "highestMergedContiguous s' \<le> j" "highestMergedContiguous s' \<le> k"
        "outcomes s' j = Some (Success q)" "outcomes s' k = Some (Success q)" for j k q
    proof (cases "j = i")
      case True
      with that(3) oi have q: "q = p" by simp
      show ?thesis
      proof (rule ccontr)
        assume "j \<noteq> k"
        with True have "k \<noteq> i" by simp
        with that(4) oj q have "outcomes s k = Some (Success p)" by simp
        with fresh [of k] that(2) show False by (simp add: hm)
      qed
    next
      case False
      with that(3) oj have o1: "outcomes s j = Some (Success q)" by simp
      show ?thesis
      proof (cases "k = i")
        case True
        with that(4) oi have "q = p" by simp
        with o1 fresh [of j] that(1) show ?thesis by (simp add: hm)
      next
        case False
        with that(4) oj have "outcomes s k = Some (Success q)" by simp
        with inv(6) [of j k q] o1 that(1,2) show ?thesis by (simp add: hm)
      qed
    qed
    show "fetched s' j = None"
      if "outcomes s' j = Some PermanentFailure \<or> outcomes s' j = None" for j
    proof -
      from that oi have "j \<noteq> i" by auto
      with that oj inv(7) [of j] show ?thesis by (simp add: fej)
    qed
  qed
qed

lemma inv_merge:
  assumes "merge_inv s" "merge_step s = Some s'"
  shows "merge_inv s'"
proof (cases "highestMergedContiguous s \<ge> total_count s \<or> outcomes s (highestMergedContiguous s) = None")
  case True
  with assms(2) have "s' = s"
    by (auto simp: merge_step_def Let_def split: if_splits)
  with assms(1) show ?thesis by simp
next
  case False
  note inv = merge_invD [OF assms(1)]
  let ?i = "highestMergedContiguous s"
  from False have lt: "?i < total_count s" and some: "outcomes s ?i \<noteq> None" by auto
  from some obtain oc where oc: "outcomes s ?i = Some oc" by auto
  have "\<exists>bytes. s' = s\<lparr>output_file := output_file s @ bytes,
            lostSegments := lostSegments s @ (if oc = PermanentFailure then [?i] else []),
            scratch := (case oc of Success p \<Rightarrow> (scratch s)(p := None)
                        | PermanentFailure \<Rightarrow> scratch s),
            highestMergedContiguous := ?i + 1\<rparr> \<and>
          bytes = segment_bytes s ?i"
  proof (cases oc)
    case PermanentFailure
    with inv(7) [of ?i] oc have "segment_bytes s ?i = []" by (simp add: segment_bytes_def)
    with PermanentFailure oc lt assms(2) show ?thesis
      by (auto simp: merge_step_def Let_def)
  next
    case (Success p)
    from inv(5) [of ?i p] oc Success obtain b where
      "scratch s p = Some b" "fetched s ?i = Some b" by auto
    with Success oc lt assms(2) show ?thesis
      by (auto simp: merge_step_def Let_def segment_bytes_def)
  qed
  then have hm: "highestMergedContiguous s' = Suc ?i"
    and ou: "output_file s' = output_file s @ segment_bytes s ?i"
    and lo: "lostSegments s' = lostSegments s @ (if oc = PermanentFailure then [?i] else [])"
    and to: "total_count s' = total_count s" and fe: "fetched s' = fetched s"
    and os: "outcomes s' = outcomes s"
    and sc: "\<And>q. oc \<noteq> Success q \<Longrightarrow> scratch s' q = scratch s q"
    by (auto split: SegmentOutcome.splits)
  have sb: "segment_bytes s' = segment_bytes s"
    by (simp add: segment_bytes_def fun_eq_iff fe)
  show ?thesis
  proof (rule merge_invI)
    show "highestMergedContiguous s' \<le> total_count s'" using lt by (simp add: hm to)
    show "outcomes s' j \<noteq> None" if "j < highestMergedContiguous s'" for j
      using inv(2) [of j] that oc by (cases "j = ?i") (simp_all add: hm os)
    show "output_file s' = concat (map (segment_bytes s') [0..<highestMergedContiguous s'])"
      using inv(3) by (simp add: hm ou sb)
    show "lostSegments s' =
       filter (\<lambda>i. outcomes s' i = Some PermanentFailure) [0..<highestMergedContiguous s']"
      using inv(4) oc by (simp add: hm lo os)
    show "\<exists>b. scratch s' q = Some b \<and> fetched s' j = Some b"
      if "highestMergedContiguous s' \<le> j" "outcomes s' j = Some (Success q)" for j q
    proof -
      from that have j: "?i \<le> j" "j \<noteq> ?i" and o: "outcomes s j = Some (Success q)"
        by (simp_all add: hm os)
      have "oc \<noteq> Success q"
      proof
        assume "oc = Success q"
        with inv(6) [of j ?i q] j o oc show False by simp
      qed
      with inv(5) [of j q] j o show ?thesis by (simp add: sc fe)
    qed
    show "j = k"
      if "highestMergedContiguous s' \<le> j" "highestMergedContiguous s' \<le> k"
        "outcomes s' j = Some (Success q)" "outcomes s' k = Some (Success q)" for j k q
      using inv(6) [of j k q] that by (simp add: hm os)
    show "fetched s' j = None"
      if "outcomes s' j = Some PermanentFailure \<or> outcomes s' j = None" for j
      using inv(7) [of j] that by (simp add: os fe)
  qed
qed

lemma inv_extend:
  assumes "merge_inv s" "total_count s \<le> n"
  shows "merge_inv (s\<lparr>total_count := n\<rparr>)"
proof -
  have sb: "segment_bytes (s\<lparr>total_count := n\<rparr>) = segment_bytes s"
    by (simp add: segment_bytes_def fun_eq_iff)
  note inv = merge_invD [OF assms(1)]
  show ?thesis
    by (rule merge_invI) (use inv assms(2) in \<open>simp_all add: sb\<close>)
qed

lemma inv_step:
  assumes "merge_inv s" "step a s = Some s'"
  shows "merge_inv s'"
proof (cases a)
  case (Fetched i p bytes)
  with assms show ?thesis by (blast intro: inv_fetched)
next
  case (Abandoned i)
  with assms show ?thesis by (auto intro: inv_record_fail)
next
  case Merge
  with assms show ?thesis by (auto intro: inv_merge)
next
  case (ExtendTotal n)
  with assms show ?thesis
    by (auto intro: inv_extend split: if_splits)
qed

lemma inv_steps:
  "merge_inv s \<Longrightarrow> steps as s = Some s' \<Longrightarrow> merge_inv s'"
  by (induction as arbitrary: s) (auto split: option.splits dest: inv_step)

lemma merge_never_fails:
  assumes "merge_inv s"
  shows "merge_step s \<noteq> None"
proof -
  have "scratch s p \<noteq> None"
    if "outcomes s (highestMergedContiguous s) = Some (Success p)" for p
    using merge_invD(5) [OF assms, of "highestMergedContiguous s" p] that by auto
  then show ?thesis
    by (auto simp: merge_step_def Let_def split: option.splits SegmentOutcome.splits)
qed

lemma concat_skip_empty:
  "(\<And>i. i \<in> set xs \<Longrightarrow> \<not> P i \<Longrightarrow> f i = []) \<Longrightarrow>
   concat (map f xs) = concat (map f (filter P xs))"
  by (induction xs) auto

lemma inv_output_successful:
  assumes "merge_inv s"
  shows "output_file s =
     concat (map (segment_bytes s) (filter (successful s) [0..<highestMergedContiguous s]))"
proof -
  have "segment_bytes s i = []" if "\<not> successful s i" for i
  proof -
    from that have "outcomes s i = Some PermanentFailure \<or> outcomes s i = None"
      by (auto simp: successful_def split: option.splits SegmentOutcome.splits)
    with merge_invD(7) [OF assms, of i] show ?thesis by (simp add: segment_bytes_def)
  qed
  then have "concat (map (segment_bytes s) [0..<highestMergedContiguous s]) =
     concat (map (segment_bytes s) (filter (successful s) [0..<highestMergedContiguous s]))"
    by (intro concat_skip_empty) auto
  with merge_invD(3) [OF assms] show ?thesis by simp
qed

lemma step_frontier:
  assumes "step a s = Some s'"
  shows "highestMergedContiguous s' = highestMergedContiguous s \<or>
     (highestMergedContiguous s' = highestMergedContiguous s + 1 \<and>
      outcomes s (highestMergedContiguous s) \<noteq> None)"
  using assms
  by (cases a)
     (auto simp: recordOutcome_def merge_step_def Let_def
       split: if_splits option.splits SegmentOutcome.splits)

section \<open>Properties\<close>

text \<open>
  C1. In every state a run can reach, whatever the interleaving of the workers, the
  total's extensions and the coordinator's turns: every index below the merge frontier
  has a terminal outcome; the output file is the concatenation, in ascending index
  order, of the bytes persisted for the successful indices below the frontier, the
  failed ones being skipped; the lost list is the permanently failed indices below the
  frontier, in ascending order; the frontier is within the total, so that when it has
  reached the total this describes the whole stream; the coordinator's turn never meets
  a merge I/O error; and any further step leaves the frontier where it is or advances it
  by exactly one, past an index that has a terminal outcome.
\<close>

theorem merge_in_index_order:
  assumes "steps acts (init_state n) = Some s"
  shows "(\<forall>i < highestMergedContiguous s. outcomes s i \<noteq> None) \<and>
     output_file s =
       concat (map (segment_bytes s) (filter (successful s) [0..<highestMergedContiguous s])) \<and>
     lostSegments s =
       filter (\<lambda>i. outcomes s i = Some PermanentFailure) [0..<highestMergedContiguous s] \<and>
     highestMergedContiguous s \<le> total_count s \<and>
     merge_step s \<noteq> None \<and>
     (\<forall>a s'. step a s = Some s' \<longrightarrow>
        highestMergedContiguous s' = highestMergedContiguous s \<or>
        (highestMergedContiguous s' = highestMergedContiguous s + 1 \<and>
         outcomes s (highestMergedContiguous s) \<noteq> None))"
proof -
  have inv: "merge_inv s" using inv_steps [OF inv_init assms] .
  show ?thesis
    using merge_invD(1,2,4) [OF inv] inv_output_successful [OF inv] merge_never_fails [OF inv]
      step_frontier
    by blast
qed

text \<open>
  Three segments: the second is fetched first and waits at the frontier, the first
  arrives and both are merged in index order, the third is abandoned.
\<close>

theorem merge_in_index_order_witness:
  "\<exists>s. steps [Fetched 1 ''seg-b'' ''bb'', Merge, Fetched 0 ''seg-a'' ''aa'', Merge, Merge,
               Abandoned 2, Merge] (init_state 3) = Some s \<and>
       highestMergedContiguous s = total_count s \<and> output_file s = ''aabb'' \<and>
       lostSegments s = [2]"
proof -
  have "\<exists>s. steps [Fetched 1 ''seg-b'' ''bb'', Merge, Fetched 0 ''seg-a'' ''aa'', Merge, Merge,
               Abandoned 2, Merge] (init_state 3) = Some s \<and>
       highestMergedContiguous s = 3 \<and> total_count s = 3 \<and>
       segment_bytes s 0 = ''aa'' \<and> segment_bytes s 1 = ''bb'' \<and>
       successful s 0 \<and> successful s 1 \<and> \<not> successful s 2 \<and>
       outcomes s 0 \<noteq> Some PermanentFailure \<and> outcomes s 1 \<noteq> Some PermanentFailure \<and>
       outcomes s 2 = Some PermanentFailure"
    by (simp add: init_state_def recordOutcome_def merge_step_def segment_bytes_def
        successful_def)
  then obtain s where st: "steps [Fetched 1 ''seg-b'' ''bb'', Merge, Fetched 0 ''seg-a'' ''aa'',
        Merge, Merge, Abandoned 2, Merge] (init_state 3) = Some s"
    and f: "highestMergedContiguous s = 3" "total_count s = 3"
    and b: "segment_bytes s 0 = ''aa''" "segment_bytes s 1 = ''bb''"
    and su: "successful s 0" "successful s 1" "\<not> successful s 2"
    and o: "outcomes s 0 \<noteq> Some PermanentFailure" "outcomes s 1 \<noteq> Some PermanentFailure"
       "outcomes s 2 = Some PermanentFailure"
    by blast
  have up: "[0..<3] = [0, 1, 2]" by (simp add: upt_rec)
  from merge_in_index_order [OF st]
  have "output_file s = concat (map (segment_bytes s) (filter (successful s) [0..<3]))"
    and "lostSegments s = filter (\<lambda>i. outcomes s i = Some PermanentFailure) [0..<3]"
    by (simp_all add: f)
  then have "output_file s = ''aabb''" and "lostSegments s = [2]"
    using b su o by (simp_all add: up)
  with st f show ?thesis by auto
qed

text \<open>
  C2, as the code has it. Between \<open>Start\<close> and the end of \<open>run\<close> the wait group's
  counter is 1 and \<open>Wait\<close> blocks. When \<open>newSegStatus\<close> fails, \<open>run\<close> ends with the
  error stored and \<open>Wait\<close> returns it. When it succeeds and the workers and the merge
  task run to their end, \<open>Wait\<close> returns a result whose \<open>TotalSegments\<close> is the
  \<open>end\<close> that the segment status had right after \<open>newSegStatus\<close>, before any worker was
  started, whatever the status holds at the end.
\<close>

theorem Wait_returns_initial_total:
  assumes "wg d = 1"
  shows "Wait d = None \<and>
     (\<exists>d'. run (Inl err) work d = Inr d' \<and>
        Wait d' = Some ((result d)\<lparr>Error := Some err\<rparr>)) \<and>
     (\<forall>st' lost. work st = Inr (st', lost) \<longrightarrow>
        (\<exists>d'. run (Inr st) work d = Inr d' \<and>
           Wait d' = Some ((result d)\<lparr>TotalSegments := seg_end st, LostSegments := lost\<rparr>)))"
  using assms by (simp add: run_def wg_Done_def Wait_def)

text \<open>
  A run that starts with five segments, is extended to eight and loses segment 4.
\<close>

theorem Wait_returns_initial_total_witness:
  "\<exists>d'. run (Inr \<lparr>seg_end = 5\<rparr>) (work_extending 8 [4])
       (new_task None False None ''out.mp4'' QueueAuto ''segments'' 1 ''https://example.org/v''
          \<lparr>wg := 1, started := True\<rparr>) = Inr d' \<and>
     Wait d' = Some \<lparr>Error = None, LostSegments = [4], TotalSegments = 5\<rparr>"
  using Wait_returns_initial_total [where
      d = "new_task None False None ''out.mp4'' QueueAuto ''segments'' 1 ''https://example.org/v''
          \<lparr>wg := 1, started := True\<rparr>"
      and work = "work_extending 8 [4]" and st = "\<lparr>seg_end = 5\<rparr>"
      and err = "''no segments''"]
  by (simp add: work_extending_def extendTotal_def new_task_def zero_result_def)

text \<open>
  C2 as stated fails when the total is revised during the run: the status starts with an
  \<open>end\<close> of 5, the run extends it to 8, and \<open>Wait\<close> returns a \<open>TotalSegments\<close> of 5.
\<close>

theorem Wait_stale_total:
  "run (Inr \<lparr>seg_end = 5\<rparr>) (work_extending 8 [])
     (new_task None False None ''out.mp4'' QueueAuto ''segments'' 1 ''https://example.org/v''
        \<lparr>wg := 1, started := True\<rparr>) =
   Inr (new_task None False None ''out.mp4'' QueueAuto ''segments'' 1 ''https://example.org/v''
        \<lparr>wg := 0, result := \<lparr>Error = None, LostSegments = [], TotalSegments = 5\<rparr>,
          started := True\<rparr>) \<and>
   work_extending 8 [] \<lparr>seg_end = 5\<rparr> = Inr (\<lparr>seg_end = 8\<rparr>, []) \<and>
   Wait (new_task None False None ''out.mp4'' QueueAuto ''segments'' 1 ''https://example.org/v''
        \<lparr>wg := 0, result := \<lparr>Error = None, LostSegments = [], TotalSegments = 5\<rparr>,
          started := True\<rparr>) =
   Some \<lparr>Error = None, LostSegments = [], TotalSegments = 5\<rparr>"
  by (simp add: run_def work_extending_def extendTotal_def wg_Done_def new_task_def
      zero_result_def Wait_def)

text \<open>
  C3. A worker that holds a segment with a failure count of \<open>n\<close>, whatever is left in
  its queue; its attempts are its calls of \<open>downloadSegment\<close>. When \<open>k\<close> calls in
  a row have failed and the count has reached \<open>FailThreshold\<close>, the worker makes no
  further call: in the world the last call left it records the permanent failure, and
  goes on with the rest of its queue. When \<open>k\<close> calls have failed and the count is
  still below \<open>FailThreshold\<close> (so also after the 19th failure), it calls
  \<open>downloadSegment\<close> once more: if that call succeeds, the success is the one outcome
  recorded and the worker goes on with the rest of its queue, and if it aborts, so does
  the worker. One of these always happens, after at most \<open>FailThreshold - n\<close> failed
  calls. And when every call on the segment fails, the worker makes exactly
  \<open>FailThreshold - n\<close> of them, 20 from a count of zero, and then abandons the segment.
  The attempts the trace logs are as many as the calls.
\<close>

theorem fail_threshold_attempts:
  assumes "seg \<noteq> -1" and "n \<le> FailThreshold"
  shows "(\<forall>k wk. failed_attempts e task seg n k w = Some wk \<and> n + k = FailThreshold \<longrightarrow>
        downloadTask_loop e task queue seg n w = worker_by_spec e task queue (abandon seg wk) \<and>
        status_events (trace (abandon seg wk)) = status_events (trace w) @ [(seg, False)] \<and>
        attempts seg (trace (abandon seg wk)) = attempts seg (trace w) + k) \<and>
     (\<forall>k wk w1. failed_attempts e task seg n k w = Some wk \<and> n + k < FailThreshold \<and>
        downloadSegment e task seg (emit [EvCurrent seg] wk) = Inr (True, w1) \<longrightarrow>
        downloadTask_loop e task queue seg n w =
          worker_by_spec e task queue (emit [EvDownloadedLog seg, EvDone seg] w1) \<and>
        status_events (trace w1) = status_events (trace w) @ [(seg, True)] \<and>
        attempts seg (trace w1) = attempts seg (trace w) + k + 1) \<and>
     (\<forall>k wk a. failed_attempts e task seg n k w = Some wk \<and> n + k < FailThreshold \<and>
        downloadSegment e task seg (emit [EvCurrent seg] wk) = Inl a \<longrightarrow>
        downloadTask_loop e task queue seg n w = Inl a) \<and>
     (\<exists>k wk. n + k \<le> FailThreshold \<and> failed_attempts e task seg n k w = Some wk \<and>
        (n + k = FailThreshold \<or>
         (\<exists>a. downloadSegment e task seg (emit [EvCurrent seg] wk) = Inl a) \<or>
         (\<exists>w1. downloadSegment e task seg (emit [EvCurrent seg] wk) = Inr (True, w1)))) \<and>
     ((\<forall>w0. \<exists>w1. downloadSegment e task seg w0 = Inr (False, w1)) \<longrightarrow>
        (\<exists>wk. failed_attempts e task seg n (FailThreshold - n) w = Some wk \<and>
           downloadTask_loop e task queue seg n w =
             worker_by_spec e task queue (abandon seg wk)))"
proof (intro conjI allI impI)
  fix k wk
  assume a: "failed_attempts e task seg n k w = Some wk \<and> n + k = FailThreshold"
  then have fa: "failed_attempts e task seg n k w = Some wk" and nk: "n + k = FailThreshold"
    by simp_all
  have "retry_segment e task seg n w = Inr (abandon seg wk)"
    using retry_after_failed_attempts [OF fa] nk by (simp add: retry_at_threshold)
  then show "downloadTask_loop e task queue seg n w =
      worker_by_spec e task queue (abandon seg wk)"
    by (simp add: loop_held_rest [OF assms(1)])
  from failed_attempts_trace [OF fa]
  show "status_events (trace (abandon seg wk)) = status_events (trace w) @ [(seg, False)]"
    and "attempts seg (trace (abandon seg wk)) = attempts seg (trace w) + k"
    by (simp_all add: abandon_def)
next
  fix k wk w1
  assume a: "failed_attempts e task seg n k w = Some wk \<and> n + k < FailThreshold \<and>
      downloadSegment e task seg (emit [EvCurrent seg] wk) = Inr (True, w1)"
  then have fa: "failed_attempts e task seg n k w = Some wk" and nk: "n + k < FailThreshold"
    and ds: "downloadSegment e task seg (emit [EvCurrent seg] wk) = Inr (True, w1)"
    by simp_all
  have "retry_segment e task seg (n + k) wk = Inr (emit [EvDownloadedLog seg, EvDone seg] w1)"
    using ds nk by (simp add: retry_segment.simps [of e task seg "n + k" wk] shouldRetry_def)
  with retry_after_failed_attempts [OF fa] nk
  have "retry_segment e task seg n w = Inr (emit [EvDownloadedLog seg, EvDone seg] w1)"
    by simp
  then show "downloadTask_loop e task queue seg n w =
      worker_by_spec e task queue (emit [EvDownloadedLog seg, EvDone seg] w1)"
    by (simp add: loop_held_rest [OF assms(1)])
  from downloadSegment_events [OF ds] obtain evs where
    t: "trace w1 = trace wk @ EvCurrent seg # evs" and fe: "fetch_events seg True evs"
    by auto
  from fe have "status_events evs = [(seg, True)]" by (simp add: fetch_events_def)
  with t failed_attempts_trace [OF fa] fetch_events_counts(1) [OF fe, of seg]
  show "status_events (trace w1) = status_events (trace w) @ [(seg, True)]"
    and "attempts seg (trace w1) = attempts seg (trace w) + k + 1"
    by simp_all
next
  fix k wk a
  assume a: "failed_attempts e task seg n k w = Some wk \<and> n + k < FailThreshold \<and>
      downloadSegment e task seg (emit [EvCurrent seg] wk) = Inl a"
  then have fa: "failed_attempts e task seg n k w = Some wk" and nk: "n + k < FailThreshold"
    and ds: "downloadSegment e task seg (emit [EvCurrent seg] wk) = Inl a"
    by simp_all
  have "retry_segment e task seg (n + k) wk = Inl a"
    using ds nk by (simp add: retry_segment.simps [of e task seg "n + k" wk] shouldRetry_def)
  with retry_after_failed_attempts [OF fa] nk
  have "retry_segment e task seg n w = Inl a" by simp
  then show "downloadTask_loop e task queue seg n w = Inl a"
    by (simp add: loop_held_rest [OF assms(1)])
next
  show "\<exists>k wk. n + k \<le> FailThreshold \<and> failed_attempts e task seg n k w = Some wk \<and>
        (n + k = FailThreshold \<or>
         (\<exists>a. downloadSegment e task seg (emit [EvCurrent seg] wk) = Inl a) \<or>
         (\<exists>w1. downloadSegment e task seg (emit [EvCurrent seg] wk) = Inr (True, w1)))"
    by (rule failed_attempts_exhaustive [OF assms(2)])
next
  assume af: "\<forall>w0. \<exists>w1. downloadSegment e task seg w0 = Inr (False, w1)"
  from failed_attempts_all_fail [OF af, of n "FailThreshold - n" w] obtain wk where
    fa: "failed_attempts e task seg n (FailThreshold - n) w = Some wk" by blast
  have "retry_segment e task seg n w = Inr (abandon seg wk)"
    using retry_after_failed_attempts [OF fa] assms(2) by (simp add: retry_at_threshold)
  then have "downloadTask_loop e task queue seg n w =
      worker_by_spec e task queue (abandon seg wk)"
    by (simp add: loop_held_rest [OF assms(1)])
  with fa show "\<exists>wk. failed_attempts e task seg n (FailThreshold - n) w = Some wk \<and>
           downloadTask_loop e task queue seg n w =
             worker_by_spec e task queue (abandon seg wk)"
    by blast
qed

text \<open>
  Segment 4 behind a transport that never answers: 20 calls of \<open>downloadSegment\<close>,
  which make 60 calls of \<open>Client.Do\<close>, and then the segment is abandoned.
\<close>

theorem fail_threshold_attempts_witness:
  "\<exists>wk. failed_attempts plain_env (task_with dead_client) 4 0 20 empty_world = Some wk \<and>
     ndo wk = 60 \<and>
     downloadTask_loop plain_env (task_with dead_client) [] 4 0 empty_world =
       Inr (emit [EvThreadDone] (abandon 4 wk)) \<and>
     status_events (trace (abandon 4 wk)) = [(4, False)] \<and>
     attempts 4 (trace (abandon 4 wk)) = 20"
proof -
  from dead_client_failed_attempts [of 4 0 20 empty_world] obtain wk where
    fa: "failed_attempts plain_env (task_with dead_client) 4 0 20 empty_world = Some wk"
    and nd: "ndo wk = 60"
    by (auto simp: empty_world_def)
  have pre: "failed_attempts plain_env (task_with dead_client) 4 0 20 empty_world = Some wk \<and>
      0 + 20 = FailThreshold"
    using fa by (simp add: FailThreshold_def)
  from fail_threshold_attempts [of 4 0 plain_env "task_with dead_client" empty_world "[]",
      THEN conjunct1, rule_format, OF _ _ pre]
  have "downloadTask_loop plain_env (task_with dead_client) [] 4 0 empty_world =
       Inr (emit [EvThreadDone] (abandon 4 wk))"
    and "status_events (trace (abandon 4 wk)) = [(4, False)]"
    and "attempts 4 (trace (abandon 4 wk)) = 20"
    by (simp_all add: FailThreshold_def empty_world_def)
  with fa nd show ?thesis by blast
qed

text \<open>
  C4, as the code has it. On a task not yet started, \<open>Start\<close> exits the process with
  status 1 exactly when the URL, the merge file or the segment directory is empty, and
  then neither touches the wait group nor launches \<open>run\<close>. Otherwise it starts the
  download; a thread count below 1 is not an error but is replaced by 1.
\<close>

theorem Start_configuration:
  assumes "\<not> started d"
  shows "Start dl d =
     (if Url d = [] \<or> MergeFile d = [] \<or> SegmentDir d = [] then Inl (Exit 1)
      else Inr (d\<lparr>Threads := max 1 (Threads d), wg := wg d + 1, started := True\<rparr>, True))"
proof (cases "Threads d < 1")
  case True
  then have "max 1 (Threads d) = 1" by simp
  with True assms show ?thesis
    by (simp add: Start_def Fatal_exits Let_def)
next
  case False
  then have "max 1 (Threads d) = Threads d" by simp
  with False assms show ?thesis
    by (simp add: Start_def Fatal_exits Let_def)
qed

text \<open>
  An empty URL and an empty merge file exit; a thread count of 0 starts with 1 thread.
\<close>

theorem Start_configuration_witness:
  "Start \<lparr>minLevel = LevelWarn, tag = []\<rparr>
     (new_task None False None ''out.mp4'' QueueAuto ''segments'' 4 '''') = Inl (Exit 1) \<and>
   Start \<lparr>minLevel = LevelWarn, tag = []\<rparr>
     (new_task None False None '''' QueueAuto ''segments'' 4 ''https://example.org/v'') = Inl (Exit 1) \<and>
   Start \<lparr>minLevel = LevelWarn, tag = []\<rparr>
     (new_task None False None ''out.mp4'' QueueAuto ''segments'' 0 ''https://example.org/v'') =
   Inr (new_task None False None ''out.mp4'' QueueAuto ''segments'' 1 ''https://example.org/v''
          \<lparr>wg := 1, started := True\<rparr>, True)"
  using
    Start_configuration [of "new_task None False None ''out.mp4'' QueueAuto ''segments'' 4 ''''"
      "\<lparr>minLevel = LevelWarn, tag = []\<rparr>"]
    Start_configuration [of "new_task None False None '''' QueueAuto ''segments'' 4 ''https://example.org/v''"
      "\<lparr>minLevel = LevelWarn, tag = []\<rparr>"]
    Start_configuration [of "new_task None False None ''out.mp4'' QueueAuto ''segments'' 0 ''https://example.org/v''"
      "\<lparr>minLevel = LevelWarn, tag = []\<rparr>"]
  by (simp add: new_task_def)

text \<open>
  C4 as stated fails for the thread count: with 0 threads and the three paths set,
  \<open>Start\<close> does not exit; it sets the count to 1, raises the wait group and launches
  \<open>run\<close>.
\<close>

theorem Start_zero_threads_not_fatal:
  "Start \<lparr>minLevel = LevelDebug, tag = []\<rparr>
     (new_task None False None ''out.mp4'' QueueAuto ''segments'' 0 ''https://example.org/v'') =
   Inr (new_task None False None ''out.mp4'' QueueAuto ''segments'' 1 ''https://example.org/v''
          \<lparr>wg := 1, started := True\<rparr>, True)"
  by (simp add: Start_def new_task_def Fatal_exits)

text \<open>
  C5, as the code has it. \<open>doRequest\<close> sends a request up to \<open>RetryThreshold\<close> = 3
  times, one call right after the other (the trace holds nothing between them), and
  stops at the first call the transport answers; it reports an error only when all three
  calls fail. When all three fail for a segment's request, \<open>downloadSegment\<close> returns
  \<open>false\<close> after those three calls and records no outcome; that is one failed attempt,
  and the worker goes on as the specification's worker does with the same segment and a
  count that is one higher. When the first \<open>k\<close> calls fail and the next one, within the
  three, is answered with status 200 and the body is persisted, the attempt returns
  \<open>true\<close> after \<open>k + 1\<close> calls, the success is recorded, and the worker goes on with
  the rest of its queue, whatever its failure count was. When the answer has another
  status, the attempt is a failed one like any other.
\<close>

theorem inline_retry:
  assumes "Client task = Some c" and "url_ok e (getSegUrl e (Url task) seg)"
    and "seg \<noteq> -1" and "failCount < FailThreshold"
  shows "doRequest task req w =
       (case c (ndo w) req of
          DoResp r \<Rightarrow> Inr (Some r, after_tries 1 req w)
        | DoErr \<Rightarrow>
          (case c (ndo w + 1) req of
             DoResp r \<Rightarrow> Inr (Some r, after_tries 2 req w)
           | DoErr \<Rightarrow>
             (case c (ndo w + 2) req of
                DoResp r \<Rightarrow> Inr (Some r, after_tries 3 req w)
              | DoErr \<Rightarrow> Inr (None, after_tries 3 req w)))) \<and>
     (c (ndo w) (segment_request e task seg) = DoErr \<and>
      c (ndo w + 1) (segment_request e task seg) = DoErr \<and>
      c (ndo w + 2) (segment_request e task seg) = DoErr \<longrightarrow>
        downloadSegment e task seg w =
          Inr (False, after_tries 3 (segment_request e task seg) w) \<and>
        failed_attempts e task seg failCount 1 w =
          Some (emit [EvFailed seg (failCount + 1), EvSleep]
                  (after_tries 3 (segment_request e task seg) (emit [EvCurrent seg] w))) \<and>
        status_events
            (trace (after_tries 3 (segment_request e task seg) (emit [EvCurrent seg] w))) =
          status_events (trace w) \<and>
        downloadTask_loop e task queue seg failCount w =
          (case retry_segment e task seg (failCount + 1)
                  (emit [EvFailed seg (failCount + 1), EvSleep]
                     (after_tries 3 (segment_request e task seg) (emit [EvCurrent seg] w))) of
             Inl a \<Rightarrow> Inl a
           | Inr w' \<Rightarrow> worker_by_spec e task queue w')) \<and>
     (k < RetryThreshold \<and>
      (\<forall>j < k. c (ndo w + j) (segment_request e task seg) = DoErr) \<and>
      c (ndo w + k) (segment_request e task seg) = DoResp resp \<and>
      StatusCode resp = 200 \<and> \<not> BodyErr resp \<and>
      tmp_name e (ntmp w) = Some name \<and> write_fail e (ntmp w) = None \<longrightarrow>
        (\<exists>w1. downloadSegment e task seg (emit [EvCurrent seg] w) = Inr (True, w1) \<and>
           trace w1 = trace w @
             EvCurrent seg # replicate (k + 1) (EvDo (segment_request e task seg)) @
             [EvTempFile name, EvStatusDownloaded seg \<lparr>ok = True, filename = name\<rparr>] \<and>
           files w1 name = Some (Body resp) \<and>
           downloadTask_loop e task queue seg failCount w =
             worker_by_spec e task queue (emit [EvDownloadedLog seg, EvDone seg] w1))) \<and>
     (k < RetryThreshold \<and>
      (\<forall>j < k. c (ndo w + j) (segment_request e task seg) = DoErr) \<and>
      c (ndo w + k) (segment_request e task seg) = DoResp resp \<and>
      StatusCode resp \<noteq> 200 \<longrightarrow>
        (\<exists>w1. downloadSegment e task seg (emit [EvCurrent seg] w) = Inr (False, w1) \<and>
           status_events (trace w1) = status_events (trace w) \<and>
           downloadTask_loop e task queue seg failCount w =
             (case retry_segment e task seg (failCount + 1)
                     (emit [EvFailed seg (failCount + 1), EvSleep] w1) of
                Inl a \<Rightarrow> Inl a
              | Inr w' \<Rightarrow> worker_by_spec e task queue w')))"
proof (intro conjI impI)
  show "doRequest task req w =
       (case c (ndo w) req of
          DoResp r \<Rightarrow> Inr (Some r, after_tries 1 req w)
        | DoErr \<Rightarrow>
          (case c (ndo w + 1) req of
             DoResp r \<Rightarrow> Inr (Some r, after_tries 2 req w)
           | DoErr \<Rightarrow>
             (case c (ndo w + 2) req of
                DoResp r \<Rightarrow> Inr (Some r, after_tries 3 req w)
              | DoErr \<Rightarrow> Inr (None, after_tries 3 req w))))"
    by (rule doRequest_some [OF assms(1)])
next
  let ?r = "segment_request e task seg"
  let ?w0 = "emit [EvCurrent seg] w"
  assume a: "c (ndo w) ?r = DoErr \<and> c (ndo w + 1) ?r = DoErr \<and> c (ndo w + 2) ?r = DoErr"
  have d: "doRequest task ?r w' = Inr (None, after_tries 3 ?r w')" if "ndo w' = ndo w" for w'
    using a that by (simp add: doRequest_some [OF assms(1)])
  have ds: "downloadSegment e task seg w' = Inr (False, after_tries 3 ?r w')"
    if "ndo w' = ndo w" for w'
    using d [OF that]
    by (simp add: downloadSegment_def NewRequest_ok [OF assms(2)] segment_request_def [symmetric])
  have ds0: "downloadSegment e task seg ?w0 = Inr (False, after_tries 3 ?r ?w0)"
    by (rule ds) simp
  show "downloadSegment e task seg w = Inr (False, after_tries 3 ?r w)"
    by (rule ds) simp
  show "failed_attempts e task seg failCount 1 w =
      Some (emit [EvFailed seg (failCount + 1), EvSleep] (after_tries 3 ?r ?w0))"
    using ds0 by simp
  show "status_events (trace (after_tries 3 ?r ?w0)) = status_events (trace w)"
    by simp
  show "downloadTask_loop e task queue seg failCount w =
          (case retry_segment e task seg (failCount + 1)
                  (emit [EvFailed seg (failCount + 1), EvSleep] (after_tries 3 ?r ?w0)) of
             Inl a \<Rightarrow> Inl a
           | Inr w' \<Rightarrow> worker_by_spec e task queue w')"
    by (rule loop_after_failed_attempt [OF assms(3,4) ds0])
next
  let ?r = "segment_request e task seg"
  let ?w0 = "emit [EvCurrent seg] w"
  assume a: "k < RetryThreshold \<and> (\<forall>j < k. c (ndo w + j) ?r = DoErr) \<and>
      c (ndo w + k) ?r = DoResp resp \<and> StatusCode resp = 200 \<and> \<not> BodyErr resp \<and>
      tmp_name e (ntmp w) = Some name \<and> write_fail e (ntmp w) = None"
  have d: "doRequest task ?r ?w0 = Inr (Some resp, after_tries (k + 1) ?r ?w0)"
    using a doRequest_first_success [OF assms(1), of k ?w0 ?r resp] by simp
  let ?w1 = "status_downloaded seg \<lparr>ok = True, filename = name\<rparr>
      (snd (io_Copy e (ntmp w) name resp (snd (TempFile e (after_tries (k + 1) ?r ?w0)))))"
  have ds: "downloadSegment e task seg ?w0 = Inr (True, ?w1)"
    using a d
    by (simp add: downloadSegment_def NewRequest_ok [OF assms(2)] segment_request_def [symmetric]
        TempFile_def io_Copy_def)
  have tr: "trace ?w1 = trace w @ EvCurrent seg # replicate (k + 1) (EvDo ?r) @
              [EvTempFile name, EvStatusDownloaded seg \<lparr>ok = True, filename = name\<rparr>]"
    using a by (simp add: status_downloaded_def TempFile_def io_Copy_def)
  have fi: "files ?w1 name = Some (Body resp)"
    using a by (simp add: status_downloaded_def TempFile_def io_Copy_def)
  have lp: "downloadTask_loop e task queue seg failCount w =
      worker_by_spec e task queue (emit [EvDownloadedLog seg, EvDone seg] ?w1)"
    by (rule loop_after_success [OF assms(3,4) ds])
  from ds tr fi lp
  show "\<exists>w1. downloadSegment e task seg ?w0 = Inr (True, w1) \<and>
           trace w1 = trace w @ EvCurrent seg # replicate (k + 1) (EvDo ?r) @
             [EvTempFile name, EvStatusDownloaded seg \<lparr>ok = True, filename = name\<rparr>] \<and>
           files w1 name = Some (Body resp) \<and>
           downloadTask_loop e task queue seg failCount w =
             worker_by_spec e task queue (emit [EvDownloadedLog seg, EvDone seg] w1)"
    by blast
next
  let ?r = "segment_request e task seg"
  let ?w0 = "emit [EvCurrent seg] w"
  assume a: "k < RetryThreshold \<and> (\<forall>j < k. c (ndo w + j) ?r = DoErr) \<and>
      c (ndo w + k) ?r = DoResp resp \<and> StatusCode resp \<noteq> 200"
  have d: "doRequest task ?r ?w0 = Inr (Some resp, after_tries (k + 1) ?r ?w0)"
    using a doRequest_first_success [OF assms(1), of k ?w0 ?r resp] by simp
  from downloadSegment_non_200 [OF assms(1,2) d] a obtain w1 where
    ds: "downloadSegment e task seg ?w0 = Inr (False, w1)"
    and se: "status_events (trace w1) = status_events (trace ?w0)"
    by blast
  from se have "status_events (trace w1) = status_events (trace w)" by simp
  with ds loop_after_failed_attempt [OF assms(3,4) ds]
  show "\<exists>w1. downloadSegment e task seg ?w0 = Inr (False, w1) \<and>
           status_events (trace w1) = status_events (trace w) \<and>
           downloadTask_loop e task queue seg failCount w =
             (case retry_segment e task seg (failCount + 1)
                     (emit [EvFailed seg (failCount + 1), EvSleep] w1) of
                Inl a \<Rightarrow> Inl a
              | Inr w' \<Rightarrow> worker_by_spec e task queue w')"
    by blast
qed

text \<open>
  Segment 7: three transport errors make one failed attempt, which for a worker at 19
  failures is the 20th, so it abandons the segment; two transport errors and then a 200
  make one successful attempt, which ends the segment for a worker that had five
  failures on it.
\<close>

theorem inline_retry_witness:
  "downloadSegment plain_env (task_with dead_client) 7 empty_world =
     Inr (False,
       after_tries 3 (segment_request plain_env (task_with dead_client) 7) empty_world) \<and>
   downloadTask_loop plain_env (task_with dead_client) [] 7 19 empty_world =
     Inr (emit [EvThreadDone] (abandon 7 (emit [EvFailed 7 20, EvSleep]
       (after_tries 3 (segment_request plain_env (task_with dead_client) 7)
          (emit [EvCurrent 7] empty_world))))) \<and>
   (\<exists>w1. downloadSegment plain_env (task_with flaky_client) 7 (emit [EvCurrent 7] empty_world) =
        Inr (True, w1) \<and>
      files w1 ''segment-'' = Some ''data'' \<and>
      downloadTask_loop plain_env (task_with flaky_client) [] 7 5 empty_world =
        Inr (emit [EvThreadDone] (emit [EvDownloadedLog 7, EvDone 7] w1)))"
proof -
  have c1: "Client (task_with dead_client) = Some dead_client"
    and c2: "Client (task_with flaky_client) = Some flaky_client"
    by (simp_all add: task_with_def new_task_def)
  have u: "url_ok plain_env (getSegUrl plain_env (Url (task_with c)) 7)" for c
    by (simp add: plain_env_def)
  have f5: "(5::nat) < FailThreshold" and f19: "(19::nat) < FailThreshold"
    by (simp_all add: FailThreshold_def)
  have n: "(7::int) \<noteq> -1" by simp
  let ?d = "segment_request plain_env (task_with dead_client) 7"
  let ?r = "segment_request plain_env (task_with flaky_client) 7"
  let ?resp = "\<lparr>StatusCode = 200, Body = ''data'', BodyErr = False\<rparr>"
  have pa: "dead_client (ndo empty_world) ?d = DoErr \<and>
      dead_client (ndo empty_world + 1) ?d = DoErr \<and>
      dead_client (ndo empty_world + 2) ?d = DoErr"
    by (simp add: dead_client_def)
  note A0 = inline_retry [OF c1 u n f19, where w = empty_world and queue = "[]" and req = ?d,
        THEN conjunct2, THEN conjunct1, THEN mp, OF pa]
  have A: "downloadSegment plain_env (task_with dead_client) 7 empty_world =
     Inr (False, after_tries 3 ?d empty_world)"
    using A0 by (rule conjunct1)
  have "downloadTask_loop plain_env (task_with dead_client) [] 7 19 empty_world =
      (case retry_segment plain_env (task_with dead_client) 7 (19 + 1)
              (emit [EvFailed 7 (19 + 1), EvSleep]
                 (after_tries 3 ?d (emit [EvCurrent 7] empty_world))) of
         Inl a \<Rightarrow> Inl a
       | Inr w' \<Rightarrow> worker_by_spec plain_env (task_with dead_client) [] w')"
    using A0 by blast
  moreover have "(19::nat) + 1 = FailThreshold" by (simp add: FailThreshold_def)
  ultimately have A': "downloadTask_loop plain_env (task_with dead_client) [] 7 19 empty_world =
     Inr (emit [EvThreadDone] (abandon 7 (emit [EvFailed 7 20, EvSleep]
       (after_tries 3 ?d (emit [EvCurrent 7] empty_world)))))"
    by (simp add: retry_at_threshold [unfolded FailThreshold_def])
  have pb: "2 < RetryThreshold \<and>
      (\<forall>j < 2. flaky_client (ndo empty_world + j) ?r = DoErr) \<and>
      flaky_client (ndo empty_world + 2) ?r = DoResp ?resp \<and>
      StatusCode ?resp = 200 \<and> \<not> BodyErr ?resp \<and>
      tmp_name plain_env (ntmp empty_world) = Some ''segment-'' \<and>
      write_fail plain_env (ntmp empty_world) = None"
    by (simp add: flaky_client_def empty_world_def plain_env_def RetryThreshold_def)
  from inline_retry [OF c2 u n f5, where w = empty_world and queue = "[]" and req = ?r
        and k = 2,
        THEN conjunct2, THEN conjunct2, THEN conjunct1, THEN mp, OF pb]
  obtain w1 where
    "downloadSegment plain_env (task_with flaky_client) 7 (emit [EvCurrent 7] empty_world) =
       Inr (True, w1)"
    "files w1 ''segment-'' = Some (Body ?resp)"
    "downloadTask_loop plain_env (task_with flaky_client) [] 7 5 empty_world =
        worker_by_spec plain_env (task_with flaky_client) []
          (emit [EvDownloadedLog 7, EvDone 7] w1)"
    by blast
  then have B: "\<exists>w1. downloadSegment plain_env (task_with flaky_client) 7
          (emit [EvCurrent 7] empty_world) = Inr (True, w1) \<and>
      files w1 ''segment-'' = Some ''data'' \<and>
      downloadTask_loop plain_env (task_with flaky_client) [] 7 5 empty_world =
        Inr (emit [EvThreadDone] (emit [EvDownloadedLog 7, EvDone 7] w1))"
    by (intro exI [of _ w1]) simp
  from A A' B show ?thesis by blast
qed

text \<open>
  C5 as stated fails when the inline try that succeeds is answered with a status other
  than 200: after two transport errors the third call is answered with 404,
  \<open>doRequest\<close> returns that response, and the attempt is a failed one; a worker at 19
  failures counts it as the 20th and abandons the segment.
\<close>

theorem inline_success_non_200_is_a_failure:
  "doRequest (task_with late_404_client)
     (segment_request plain_env (task_with late_404_client) 7) (emit [EvCurrent 7] empty_world) =
     Inr (Some \<lparr>StatusCode = 404, Body = [], BodyErr = False\<rparr>,
          after_tries 3 (segment_request plain_env (task_with late_404_client) 7)
            (emit [EvCurrent 7] empty_world)) \<and>
   downloadSegment plain_env (task_with late_404_client) 7 (emit [EvCurrent 7] empty_world) =
     Inr (False,
          after_tries 1 (probe_request (task_with late_404_client))
            (after_tries 3 (segment_request plain_env (task_with late_404_client) 7)
               (emit [EvCurrent 7] empty_world))) \<and>
   downloadTask_loop plain_env (task_with late_404_client) [] 7 19 empty_world =
     Inr (emit [EvThreadDone] (abandon 7 (emit [EvFailed 7 20, EvSleep]
       (after_tries 1 (probe_request (task_with late_404_client))
          (after_tries 3 (segment_request plain_env (task_with late_404_client) 7)
             (emit [EvCurrent 7] empty_world))))))"
proof -
  let ?t = "task_with late_404_client"
  let ?r = "segment_request plain_env ?t 7"
  let ?w0 = "emit [EvCurrent 7] empty_world"
  let ?resp = "\<lparr>StatusCode = 404, Body = [], BodyErr = False\<rparr>"
  have c: "Client ?t = Some late_404_client" by (simp add: task_with_def new_task_def)
  have u: "url_ok plain_env (getSegUrl plain_env (Url ?t) 7)" by (simp add: plain_env_def)
  have u2: "url_ok plain_env (Url ?t)" by (simp add: plain_env_def task_with_def new_task_def)
  have nd: "ndo empty_world = 0" by (simp add: empty_world_def)
  have d: "doRequest ?t ?r ?w0 = Inr (Some ?resp, after_tries 3 ?r ?w0)"
    by (subst doRequest_some [OF c]) (simp add: nd late_404_client_def)
  have p: "doRequest ?t (probe_request ?t) (after_tries 3 ?r ?w0) =
      Inr (Some ?resp, after_tries 1 (probe_request ?t) (after_tries 3 ?r ?w0))"
    by (subst doRequest_some [OF c]) (simp add: nd late_404_client_def)
  have ds: "downloadSegment plain_env ?t 7 ?w0 =
      Inr (False, after_tries 1 (probe_request ?t) (after_tries 3 ?r ?w0))"
    using d p
    by (simp add: downloadSegment_def NewRequest_ok [OF u] NewRequest_ok [OF u2]
        segment_request_def [symmetric] probe_request_def [symmetric])
  have n: "(7::int) \<noteq> -1" by simp
  have f19: "(19::nat) < FailThreshold" by (simp add: FailThreshold_def)
  have "downloadTask_loop plain_env ?t [] 7 19 empty_world =
     Inr (emit [EvThreadDone] (abandon 7 (emit [EvFailed 7 20, EvSleep]
       (after_tries 1 (probe_request ?t) (after_tries 3 ?r ?w0)))))"
    by (simp add: loop_after_failed_attempt [OF n f19 ds] retry_at_threshold [unfolded FailThreshold_def])
  with d ds show ?thesis by blast
qed

text \<open>
  C6. When the request for a segment is answered with a status other than 200 (and
  \<open>http.NewRequest\<close> accepts the stream's URL), \<open>downloadSegment\<close> makes one more
  \<open>doRequest\<close>, for the stream's bare URL, which like every \<open>doRequest\<close> sends it
  between one and \<open>RetryThreshold\<close> times; whatever comes back, it returns \<open>false\<close>
  and the world differs from the one before the probe only by those calls.
\<close>

theorem non_200_probes_base_url:
  assumes "Client task = Some c"
    and "url_ok e (getSegUrl e (Url task) seg)"
    and "doRequest task (segment_request e task seg) w = Inr (Some resp, w1)"
    and "StatusCode resp \<noteq> 200"
    and "url_ok e (Url task)"
  shows "\<exists>presp n. 1 \<le> n \<and> n \<le> RetryThreshold \<and>
     doRequest task (probe_request task) w1 = Inr (presp, after_tries n (probe_request task) w1) \<and>
     downloadSegment e task seg w = Inr (False, after_tries n (probe_request task) w1)"
proof -
  from doRequest_shape [OF assms(1), of "probe_request task" w1] obtain presp n where
    p: "doRequest task (probe_request task) w1 = Inr (presp, after_tries n (probe_request task) w1)"
    and n: "1 \<le> n" "n \<le> 3" by blast
  have "downloadSegment e task seg w = Inr (False, after_tries n (probe_request task) w1)"
    using assms p
    by (simp add: downloadSegment_def NewRequest_ok segment_request_def [symmetric]
        probe_request_def [symmetric])
  with p n show ?thesis by (auto simp: RetryThreshold_def)
qed

text \<open>
  A transport that answers 404 to everything: one call for the segment, one for the
  probe.
\<close>

theorem non_200_probes_base_url_witness:
  "downloadSegment plain_env (task_with not_found_client) 0 empty_world =
     Inr (False,
       after_tries 1 (probe_request (task_with not_found_client))
         (after_tries 1 (segment_request plain_env (task_with not_found_client) 0) empty_world))"
proof -
  have c: "Client (task_with not_found_client) = Some not_found_client"
    by (simp add: task_with_def new_task_def)
  have d: "doRequest (task_with not_found_client)
        (segment_request plain_env (task_with not_found_client) 0) empty_world =
      Inr (Some \<lparr>StatusCode = 404, Body = [], BodyErr = False\<rparr>,
           after_tries 1 (segment_request plain_env (task_with not_found_client) 0) empty_world)"
    by (subst doRequest_some [OF c]) (simp add: not_found_client_def)
  have p: "doRequest (task_with not_found_client) (probe_request (task_with not_found_client)) w =
      Inr (Some \<lparr>StatusCode = 404, Body = [], BodyErr = False\<rparr>,
           after_tries 1 (probe_request (task_with not_found_client)) w)" for w
    by (subst doRequest_some [OF c]) (simp add: not_found_client_def)
  have u1: "url_ok plain_env (getSegUrl plain_env (Url (task_with not_found_client)) 0)"
    by (simp add: plain_env_def)
  have u2: "url_ok plain_env (Url (task_with not_found_client))"
    by (simp add: plain_env_def task_with_def new_task_def)
  from non_200_probes_base_url [OF c u1 d _ u2] obtain presp n where
    "doRequest (task_with not_found_client) (probe_request (task_with not_found_client))
        (after_tries 1 (segment_request plain_env (task_with not_found_client) 0) empty_world) =
      Inr (presp, after_tries n (probe_request (task_with not_found_client))
        (after_tries 1 (segment_request plain_env (task_with not_found_client) 0) empty_world))"
    and "downloadSegment plain_env (task_with not_found_client) 0 empty_world =
      Inr (False, after_tries n (probe_request (task_with not_found_client))
        (after_tries 1 (segment_request plain_env (task_with not_found_client) 0) empty_world))"
    by auto
  then show ?thesis unfolding p by simp
qed

text \<open>
  C7. When the segment's request is answered with status 200, the scratch file is
  created, and writing the body fails before its end, \<open>downloadSegment\<close> returns
  \<open>false\<close>; the scratch file is gone when it returns; after the response it has only
  created and removed that file; and it has recorded no outcome.
\<close>

theorem write_error_removes_scratch_file:
  assumes "url_ok e (getSegUrl e (Url task) seg)"
    and "doRequest task (segment_request e task seg) w = Inr (Some resp, w1)"
    and "StatusCode resp = 200"
    and "tmp_name e (ntmp w1) = Some name"
    and "write_fail e (ntmp w1) = Some k" and "k < length (Body resp)"
  shows "\<exists>w'. downloadSegment e task seg w = Inr (False, w') \<and>
     files w' name = None \<and>
     trace w' = trace w1 @ [EvTempFile name, EvRemove name] \<and>
     status_events (trace w') = status_events (trace w)"
proof -
  from doRequest_Inr_shape [OF assms(2)] obtain n where
    w1: "w1 = after_tries n (segment_request e task seg) w" by blast
  have se: "status_events (trace w1) = status_events (trace w)" by (simp add: w1)
  have "downloadSegment e task seg w =
      Inr (False, os_Remove name
        (snd (io_Copy e (ntmp w1) name resp (snd (TempFile e w1)))))"
    using assms
    by (simp add: downloadSegment_def NewRequest_ok segment_request_def [symmetric]
        TempFile_def io_Copy_def)
  moreover have "files (os_Remove name
        (snd (io_Copy e (ntmp w1) name resp (snd (TempFile e w1))))) name = None"
    by (simp add: os_Remove_def)
  moreover have "trace (os_Remove name
        (snd (io_Copy e (ntmp w1) name resp (snd (TempFile e w1))))) =
      trace w1 @ [EvTempFile name, EvRemove name]"
    using assms by (simp add: os_Remove_def io_Copy_def TempFile_def)
  ultimately show ?thesis using se by simp
qed

text \<open>
  A four-byte body on a disk that fails after two bytes.
\<close>

theorem write_error_removes_scratch_file_witness:
  "\<exists>w'. downloadSegment failing_disk_env (task_with ok_client) 0 empty_world = Inr (False, w') \<and>
     files w' ''segment-'' = None \<and> status_events (trace w') = []"
proof -
  have d: "doRequest (task_with ok_client)
        (segment_request failing_disk_env (task_with ok_client) 0) empty_world =
      Inr (Some \<lparr>StatusCode = 200, Body = ''data'', BodyErr = False\<rparr>,
           after_tries 1 (segment_request failing_disk_env (task_with ok_client) 0) empty_world)"
    by (simp add: doRequest_some [of _ ok_client] task_with_def new_task_def ok_client_def)
  from write_error_removes_scratch_file [OF _ d, of "''segment-''" 2]
  show ?thesis
    by (auto simp: failing_disk_env_def plain_env_def task_with_def new_task_def empty_world_def)
qed

text \<open>
  C8. The loop of \<open>downloadTask\<close> is the worker of the specification: for each index
  of its queue in turn, starting from a count of zero, it attempts that index until the
  fetch succeeds or the retry policy abandons it, and asks for the next index only then.
  When it returns, the terminal outcomes it has recorded are for the indices of its
  queue, one each and in the order they were dispensed.
\<close>

theorem worker_holds_segment_until_terminal:
  "downloadTask e task queue w = worker_by_spec e task queue w \<and>
   (\<forall>w'. downloadTask e task queue w = Inr w' \<longrightarrow>
      map fst (status_events (trace w')) = map fst (status_events (trace w)) @ queue)"
  by (simp add: downloadTask_def loop_is_worker_by_spec worker_by_spec_outcomes)

text \<open>
  A worker dispensed segments 3 and 4 behind a transport that always answers 200.
\<close>

theorem worker_holds_segment_until_terminal_witness:
  "\<exists>w'. downloadTask plain_env (task_with ok_client) [3, 4] empty_world = Inr w' \<and>
     map fst (status_events (trace w')) = [3, 4]"
proof -
  obtain w1 where r1: "retry_segment plain_env (task_with ok_client) 3 0
      (emit [EvNextSegment 3] empty_world) = Inr w1"
    using ok_client_retry by blast
  obtain w2 where r2: "retry_segment plain_env (task_with ok_client) 4 0
      (emit [EvNextSegment 4] w1) = Inr w2"
    using ok_client_retry by blast
  have W: "worker_by_spec plain_env (task_with ok_client) [3, 4] empty_world =
      Inr (emit [EvThreadDone] w2)"
    by (simp add: r1 r2)
  from worker_holds_segment_until_terminal [of plain_env "task_with ok_client" "[3, 4]" empty_world]
  have D: "downloadTask plain_env (task_with ok_client) [3, 4] empty_world =
      worker_by_spec plain_env (task_with ok_client) [3, 4] empty_world"
    and I: "\<And>w'. downloadTask plain_env (task_with ok_client) [3, 4] empty_world = Inr w' \<Longrightarrow>
      map fst (status_events (trace w')) = map fst (status_events (trace empty_world)) @ [3, 4]"
    by blast+
  from D W have R: "downloadTask plain_env (task_with ok_client) [3, 4] empty_world =
      Inr (emit [EvThreadDone] w2)" by simp
  from I [OF R] have "map fst (status_events (trace (emit [EvThreadDone] w2))) = [3, 4]"
    by (simp add: empty_world_def)
  with R show ?thesis by (intro exI [of _ "emit [EvThreadDone] w2"] conjI)
qed

text \<open>
  C9. With a nil \<open>Client\<close>, \<open>doRequest\<close> panics on a nil pointer dereference for
  every request; so does every attempt on a segment whose request can be built, and so
  does a worker on the first segment it is dispensed. The accessor \<open>client()\<close> would
  have answered the default client, but nothing on this path calls it.
\<close>

theorem nil_Client_panics:
  assumes "Client task = None" and "url_ok e (getSegUrl e (Url task) seg)" and "seg \<noteq> -1"
  shows "doRequest task req w = Inl PanicNilDeref \<and>
     downloadSegment e task seg w = Inl PanicNilDeref \<and>
     downloadTask e task (seg # queue) w = Inl PanicNilDeref \<and>
     client defaultClient task = defaultClient"
proof -
  have "downloadTask e task (seg # queue) w = Inl PanicNilDeref"
    using assms
    by (simp add: downloadTask_def downloadTask_loop.simps [of e task "seg # queue" "-1" 0 w]
        acquire_def FailThreshold_def downloadSegment_nil)
  then show ?thesis using assms by (simp add: doRequest_nil downloadSegment_nil client_def)
qed

text \<open>
  A worker with a nil client dispensed segments 0 and 1.
\<close>

theorem nil_Client_panics_witness:
  "downloadTask plain_env
     (new_task None False None ''out.mp4'' QueueAuto ''segments'' 1 ''https://example.org/v'')
     [0, 1] empty_world = Inl PanicNilDeref"
  using nil_Client_panics [of
      "new_task None False None ''out.mp4'' QueueAuto ''segments'' 1 ''https://example.org/v''"
      plain_env 0 undefined empty_world "[1]" undefined]
  by (simp add: new_task_def plain_env_def)

text \<open>
  C10. \<open>Wait\<close> on a task on which \<open>Start\<close> was never called does not block: the
  wait group's counter is zero, and the result is the zero value, with a nil error, no
  lost segment and a total of 0.
\<close>

theorem Wait_without_Start:
  "Wait (new_task c del lg mf qm sd th u) =
     Some \<lparr>Error = None, LostSegments = [], TotalSegments = 0\<rparr>"
  by (simp add: Wait_def new_task_def zero_result_def)

end
